theory Spec2Isabelle
  imports Complex_Main "HOL-Library.Word"
begin

unbundle bit_operations_syntax

section \<open>Enhanced CORDIC: the data model of \<^verbatim>\<open>enhanced_cordic.c\<close>\<close>

text \<open>
  The program keeps its values in \<^verbatim>\<open>int64_t\<close> and \<^verbatim>\<open>int32_t\<close> variables. They are
  modelled as 64-bit and 32-bit words: addition, subtraction, negation and the left
  shift wrap around in two's complement, \<open>sint\<close> reads the signed value,
  \<open>signed_drop_bit\<close> is the arithmetic right shift of \<^verbatim>\<open>>>\<close> on a signed operand and
  \<open><s\<close> the signed comparison.
\<close>

type_synonym int64 = "64 word"
type_synonym int32 = "32 word"

subsection \<open>The configuration macros\<close>

definition INDEX_BITS :: nat where "INDEX_BITS = 11"
definition CORDIC_BITS :: nat where "CORDIC_BITS = 19"
definition INPUT_BITS :: nat where "INPUT_BITS = 2 + INDEX_BITS + CORDIC_BITS"
definition CORDIC_REPS :: nat where "CORDIC_REPS = 24"
definition OUTPUT_SCALE :: int where "OUTPUT_SCALE = 2 ^ 31"
definition OUTPUT_EXTRA_BITS :: nat where "OUTPUT_EXTRA_BITS = 4"
definition Z_EXTRA_BITS :: nat where "Z_EXTRA_BITS = 2"
definition FULL_CIRCLE :: int where "FULL_CIRCLE = 2 ^ INPUT_BITS"

definition CORDIC_MASK :: int64 where
  "CORDIC_MASK = push_bit CORDIC_BITS 1 - 1"
definition INDEX_MASK :: int64 where
  "INDEX_MASK = push_bit CORDIC_BITS (push_bit INDEX_BITS 1 - 1)"
definition TABLE_SIZE :: nat where "TABLE_SIZE = 2 ^ INDEX_BITS"
definition TARGET :: int64 where
  "TARGET = push_bit (CORDIC_BITS + Z_EXTRA_BITS - 1) 1"

subsection \<open>The three global tables\<close>

text \<open>
  \<^verbatim>\<open>int32_t angles[CORDIC_REPS]; int32_t shifts[CORDIC_REPS]; int64_t initial[TABLE_SIZE];\<close>
  The globals are passed explicitly as one record. A read outside an array is an error
  value of the model, and so is a right shift by an amount outside \<open>0..63\<close>.
\<close>

record tables =
  angles :: "int32 list"
  shifts :: "int32 list"
  initial :: "int64 list"

datatype error = OutOfBounds | ShiftRange

definition array_get :: "'a list \<Rightarrow> int \<Rightarrow> error + 'a" where
  "array_get xs i =
     (if 0 \<le> i \<and> i < int (length xs) then Inr (xs ! nat i) else Inl OutOfBounds)"

text \<open>The arrays have the sizes of their declarations.\<close>

definition tables_sized :: "tables \<Rightarrow> bool" where
  "tables_sized tb \<longleftrightarrow>
     length (angles tb) = CORDIC_REPS \<and> length (shifts tb) = CORDIC_REPS \<and>
     length (initial tb) = TABLE_SIZE"

subsection \<open>Table generation: \<^verbatim>\<open>setup\<close>\<close>

text \<open>
  \<^verbatim>\<open>setup\<close> fills \<^verbatim>\<open>angles[i]\<close> and \<^verbatim>\<open>initial[i]\<close> with the values of double-precision
  expressions (\<^verbatim>\<open>atan\<close>, \<^verbatim>\<open>cos\<close>, \<^verbatim>\<open>sin\<close>, \<^verbatim>\<open>pow\<close>) converted to integers. These two
  conversions are the parameters \<open>fangle\<close> and \<open>finitial\<close> of the model: \<open>fangle i\<close> is
  the \<^verbatim>\<open>int32_t\<close> stored by line 119 and \<open>finitial i\<close> the \<^verbatim>\<open>int64_t\<close> stored by line
  127. Everything else is integer code and is modelled as written:
  \<^verbatim>\<open>shifts[i] = INDEX_BITS+i\<close>, the line printed for every angle, and the note printed
  when \<^verbatim>\<open>angles[0] == angles[CORDIC_REPS-1]\<close>.
\<close>

datatype message = Starting | AngleLine nat int32 | AnglesConstantNote

definition setup_tables :: "(nat \<Rightarrow> int32) \<Rightarrow> (nat \<Rightarrow> int64) \<Rightarrow> tables \<times> message list" where
  "setup_tables fangle finitial =
     (let tb = \<lparr> angles = map fangle [0..<CORDIC_REPS],
                 shifts = map (\<lambda>i. word_of_nat (INDEX_BITS + i)) [0..<CORDIC_REPS],
                 initial = map finitial [0..<TABLE_SIZE] \<rparr>;
          out = Starting # map (\<lambda>i. AngleLine i (angles tb ! i)) [0..<CORDIC_REPS]
      in (tb, if angles tb ! 0 = angles tb ! (CORDIC_REPS - 1)
              then out @ [AnglesConstantNote] else out))"

subsection \<open>The double-precision part of \<^verbatim>\<open>setup\<close>\<close>

text \<open>
  The values stored in \<^verbatim>\<open>angles\<close> and \<^verbatim>\<open>initial\<close> come out of \<^verbatim>\<open>double\<close> arithmetic
  and the C library. The definitions below follow lines 104 to 128 with every
  double-precision operation read as the exact operation on real numbers (\<^verbatim>\<open>atan\<close> as
  \<open>arctan\<close>, \<^verbatim>\<open>pow\<close> as \<open>powr\<close>, \<^verbatim>\<open>log\<close> as \<open>ln\<close>) and every conversion of a \<^verbatim>\<open>double\<close>
  to an integer type as truncation towards zero. The rounding of the doubles is not
  modelled: a statement about \<open>generated_tables\<close> is a statement about the program
  as far as rounding does not move a value across an integer. The real values of the
  two lookup entries used below lie 0.049 and 0.216 above an integer, and those of
  the angles 0.32 to 0.43 above one. Of the other lookup entries only two bounds are
  used, that they are at least 37000000 and at most \<open>2^35\<close>, and both hold with a
  margin of more than a thousand units.
\<close>

definition c_trunc :: "real \<Rightarrow> int" where
  "c_trunc r = (if 0 \<le> r then \<lfloor>r\<rfloor> else \<lceil>r\<rceil>)"

text \<open>
  The macro \<^verbatim>\<open>PI\<close> is a decimal literal, not the number \<open>\<pi>\<close>; it is taken at its
  decimal value.
\<close>

definition PI :: real where
  "PI = 3.14159265358979323846"

definition table_angle :: real where
  "table_angle = PI / 2 / real TABLE_SIZE"

definition half_table_angle :: real where
  "half_table_angle = table_angle / 2"

definition cordic_start :: real where
  "cordic_start = ln (arctan half_table_angle) / ln 2"

definition start_shifts :: int where
  "start_shifts = \<lceil>cordic_start\<rceil>"

definition angle :: "nat \<Rightarrow> real" where
  "angle i = arctan (1 / 2 powr real_of_int (int i - start_shifts))"

text \<open>The value of \<^verbatim>\<open>scale\<close> after \<open>i\<close> iterations of the loop of line 117.\<close>

fun scale_upto :: "nat \<Rightarrow> real" where
  "scale_upto 0 = 1"
| "scale_upto (Suc i) = scale_upto i * cos (angle i)"

definition table_magnitude :: real where
  "table_magnitude = (real_of_int OUTPUT_SCALE * scale_upto CORDIC_REPS) * 2 powr real OUTPUT_EXTRA_BITS"

text \<open>Lines 119 and 127: the values stored in \<^verbatim>\<open>angles[i]\<close> and \<^verbatim>\<open>initial[i]\<close>.\<close>

definition generated_angle :: "nat \<Rightarrow> int32" where
  "generated_angle i =
     word_of_int (c_trunc (real_of_int FULL_CIRCLE * angle i / (2 * PI) * 2 ^ (Z_EXTRA_BITS + i) + 1))"

definition generated_initial :: "nat \<Rightarrow> int64" where
  "generated_initial i =
     word_of_int (c_trunc (table_magnitude * sin (table_angle * real i + half_table_angle)
                           - 2 powr (real OUTPUT_EXTRA_BITS - 1)))"

definition generated_tables :: tables where
  "generated_tables = fst (setup_tables generated_angle generated_initial)"

subsection \<open>The rotation engine: \<^verbatim>\<open>cordic_sine_cosine\<close>\<close>

text \<open>Lines 146 to 153: the fields of the phase and the two sign flips.\<close>

definition quadrant_bit1 :: "int64 \<Rightarrow> int64" where
  "quadrant_bit1 z = signed_drop_bit (CORDIC_BITS + INDEX_BITS + 1) z AND 1"

definition quadrant_bit0 :: "int64 \<Rightarrow> int64" where
  "quadrant_bit0 z = signed_drop_bit (CORDIC_BITS + INDEX_BITS) z AND 1"

definition index :: "int64 \<Rightarrow> int" where
  "index z = sint (scast (signed_drop_bit CORDIC_BITS (z AND INDEX_MASK)) :: int32)"

definition residual :: "int64 \<Rightarrow> int64" where
  "residual z = push_bit Z_EXTRA_BITS (z AND CORDIC_MASK)"

definition flip_sin_sign :: "int64 \<Rightarrow> int64" where
  "flip_sin_sign z = quadrant_bit1 z"

definition flip_cos_sign :: "int64 \<Rightarrow> int64" where
  "flip_cos_sign z = quadrant_bit1 z XOR quadrant_bit0 z"

text \<open>
  Lines 155 to 168: the folded and re-centred accumulator \<open>z\<close> and the starting vector,
  returned as \<open>(x, y, z)\<close>.
\<close>

definition start_vector :: "tables \<Rightarrow> int64 \<Rightarrow> error + (int64 \<times> int64 \<times> int64)" where
  "start_vector tb z0 =
     (let z = residual z0;
          z = (if quadrant_bit0 z0 \<noteq> 0 then push_bit (CORDIC_BITS + Z_EXTRA_BITS) 1 - z else z);
          z = z - TARGET
      in if quadrant_bit0 z0 \<noteq> 0 then
           (case array_get (initial tb) (index z0) of
              Inl e \<Rightarrow> Inl e
            | Inr x \<Rightarrow>
               (case array_get (initial tb) (int TABLE_SIZE - 1 - index z0) of
                  Inl e \<Rightarrow> Inl e
                | Inr y \<Rightarrow> Inr (x, y, z)))
         else
           (case array_get (initial tb) (int TABLE_SIZE - 1 - index z0) of
              Inl e \<Rightarrow> Inl e
            | Inr x \<Rightarrow>
               (case array_get (initial tb) (index z0) of
                  Inl e \<Rightarrow> Inl e
                | Inr y \<Rightarrow> Inr (x, y, z))))"

text \<open>
  Lines 176 to 182: the body of the loop at iteration \<open>i\<close>. The third operand
  \<^verbatim>\<open>-angles[i]\<close> is negated as an \<^verbatim>\<open>int\<close> and then widened to 64 bits.
\<close>

definition cordic_step :: "tables \<Rightarrow> nat \<Rightarrow> int64 \<times> int64 \<times> int64 \<Rightarrow> error + (int64 \<times> int64 \<times> int64)" where
  "cordic_step tb i v =
     (case v of (x, y, z) \<Rightarrow>
        (case array_get (shifts tb) (int i) of
           Inl e \<Rightarrow> Inl e
         | Inr sh \<Rightarrow>
            if sint sh < 0 \<or> 64 \<le> sint sh then Inl ShiftRange
            else
              (case array_get (angles tb) (int i) of
                 Inl e \<Rightarrow> Inl e
               | Inr a \<Rightarrow>
                  (let tx = signed_drop_bit (nat (sint sh)) x;
                       ty = signed_drop_bit (nat (sint sh)) y;
                       x' = x - (if z <s 0 then - ty else ty);
                       y' = y + (if z <s 0 then - tx else tx);
                       z' = z + scast (if z <s 0 then a else - a)
                   in Inr (x', y', push_bit 1 z')))))"

text \<open>
  The trace printed when \<^verbatim>\<open>show\<close> is set: a header, then one row \<^verbatim>\<open>y, x, z\<close> before
  the loop and one after every iteration.
\<close>

datatype trace_line = Header | Row int64 int64 int64

fun row :: "int64 \<times> int64 \<times> int64 \<Rightarrow> trace_line" where
  "row (x, y, z) = Row y x z"

text \<open>
  The loop \<^verbatim>\<open>for(i = 0; i < CORDIC_REPS; i++)\<close>, entered at \<open>i\<close>. The counter is an
  \<^verbatim>\<open>int8_t\<close> that never exceeds \<^verbatim>\<open>CORDIC_REPS\<close>, so a natural number stands for it.
\<close>

function cordic_loop ::
  "tables \<Rightarrow> bool \<Rightarrow> nat \<Rightarrow> int64 \<times> int64 \<times> int64 \<Rightarrow> trace_line list
     \<Rightarrow> error + ((int64 \<times> int64 \<times> int64) \<times> trace_line list)" where
  "cordic_loop tb shw i v tr =
     (if i < CORDIC_REPS then
        (case cordic_step tb i v of
           Inl e \<Rightarrow> Inl e
         | Inr v' \<Rightarrow> cordic_loop tb shw (i + 1) v' (if shw then tr @ [row v'] else tr))
      else Inr (v, tr))"
  by pat_completeness auto
termination
  by (relation "measure (\<lambda>(tb, shw, i, v, tr). CORDIC_REPS - i)") auto

declare cordic_loop.simps [simp del]

text \<open>
  Lines 146 to 187: the accumulators when the loop is left, with the trace printed so
  far.
\<close>

definition cordic_rotate ::
  "tables \<Rightarrow> int64 \<Rightarrow> bool \<Rightarrow> error + ((int64 \<times> int64 \<times> int64) \<times> trace_line list)" where
  "cordic_rotate tb z0 shw =
     (case start_vector tb z0 of
        Inl e \<Rightarrow> Inl e
      | Inr v \<Rightarrow> cordic_loop tb shw 0 v (if shw then [Header, row v] else []))"

text \<open>
  The whole function, with lines 188 and 189. It returns the pair \<open>(s, c)\<close> written
  through the two pointers, and the trace it printed.
\<close>

definition cordic_sine_cosine ::
  "tables \<Rightarrow> int64 \<Rightarrow> bool \<Rightarrow> error + ((int64 \<times> int64) \<times> trace_line list)" where
  "cordic_sine_cosine tb z0 shw =
     (case cordic_rotate tb z0 shw of
        Inl e \<Rightarrow> Inl e
      | Inr ((x, y, z), tr) \<Rightarrow>
         (let c = signed_drop_bit OUTPUT_EXTRA_BITS (if flip_cos_sign z0 \<noteq> 0 then - x else x);
              s = signed_drop_bit OUTPUT_EXTRA_BITS (if flip_sin_sign z0 \<noteq> 0 then - y else y)
          in Inr ((s, c), tr)))"

subsection \<open>The specification's reading of the phase\<close>

text \<open>
  The specification describes the phase as an unsigned number whose bits are, from the
  top, two quadrant bits, \<open>index_bits\<close> index bits and \<open>cordic_bits\<close> residual bits,
  the residual being shifted left by \<open>z_extra_bits\<close>. These definitions follow those
  words, on the unsigned value of the phase; the theorems below compare them with the
  masks and shifts of the code.
\<close>

definition spec_quadrant_bit1 :: "nat \<Rightarrow> nat" where
  "spec_quadrant_bit1 p = (p div 2 ^ (INDEX_BITS + CORDIC_BITS + 1)) mod 2"

definition spec_quadrant_bit0 :: "nat \<Rightarrow> nat" where
  "spec_quadrant_bit0 p = (p div 2 ^ (INDEX_BITS + CORDIC_BITS)) mod 2"

definition spec_index :: "nat \<Rightarrow> nat" where
  "spec_index p = (p div 2 ^ CORDIC_BITS) mod 2 ^ INDEX_BITS"

definition spec_residual :: "nat \<Rightarrow> nat" where
  "spec_residual p = (p mod 2 ^ CORDIC_BITS) * 2 ^ Z_EXTRA_BITS"

text \<open>The quadrants are numbered 0 to 3 by the two quadrant bits.\<close>

definition spec_quadrant :: "nat \<Rightarrow> nat" where
  "spec_quadrant p = 2 * spec_quadrant_bit1 p + spec_quadrant_bit0 p"

text \<open>\<open>sign(z)\<close> of the specification's rotation step: \<open>-1\<close> if \<open>z < 0\<close>, else \<open>+1\<close>.\<close>

definition spec_sign :: "int64 \<Rightarrow> int64" where
  "spec_sign z = (if z <s 0 then - 1 else 1)"

text \<open>
  One iteration in the specification's words, at iteration \<open>i\<close>: \<open>tx\<close> and \<open>ty\<close> are
  \<open>x\<close> and \<open>y\<close> shifted right arithmetically by \<^verbatim>\<open>shift_table[i]\<close>; then
  \<open>x -= sign(z) * ty\<close>, \<open>y += sign(z) * tx\<close>, \<open>z += rotation_table[i]\<close> when \<open>z < 0\<close> and
  \<open>z -= rotation_table[i]\<close> otherwise, and at last \<open>z <<= 1\<close>. The sign and the steering
  are read from \<open>z\<close> as it is when the iteration begins.
\<close>

definition spec_step :: "tables \<Rightarrow> nat \<Rightarrow> int64 \<times> int64 \<times> int64 \<Rightarrow> int64 \<times> int64 \<times> int64" where
  "spec_step tb i v =
     (case v of (x, y, z) \<Rightarrow>
        (let tx = signed_drop_bit (nat (sint (shifts tb ! i))) x;
             ty = signed_drop_bit (nat (sint (shifts tb ! i))) y
         in (x - spec_sign z * ty, y + spec_sign z * tx,
             push_bit 1 (if z <s 0 then z + scast (angles tb ! i) else z - scast (angles tb ! i)))))"

subsection \<open>Properties of the tables\<close>

text \<open>
  Every shift amount is a valid shift of a 64-bit value, as the amounts
  \<^verbatim>\<open>INDEX_BITS+i\<close> written by \<^verbatim>\<open>setup\<close> are.
\<close>

definition shifts_in_range :: "tables \<Rightarrow> bool" where
  "shifts_in_range tb \<longleftrightarrow> (\<forall>sh \<in> set (shifts tb). 0 \<le> sint sh \<and> sint sh < 64)"

text \<open>
  No entry of the lookup table exceeds \<^verbatim>\<open>OUTPUT_SCALE\<close> scaled by the guard bits in
  magnitude: the generator stores a sine, at most one, times a magnitude of at most
  \<^verbatim>\<open>OUTPUT_SCALE * 2^OUTPUT_EXTRA_BITS\<close>.
\<close>

definition initial_bounded :: "tables \<Rightarrow> bool" where
  "initial_bounded tb \<longleftrightarrow>
     (\<forall>v \<in> set (initial tb). \<bar>sint v\<bar> \<le> OUTPUT_SCALE * 2 ^ OUTPUT_EXTRA_BITS)"

text \<open>
  The rotation angles do not decrease along the table. The generator stores the
  arctangent of \<open>2^-(i - start_shifts)\<close> scaled by \<open>2^i\<close>; with the repository's
  parameters every entry comes out as 1335089.
\<close>

definition angles_nondecreasing :: "tables \<Rightarrow> bool" where
  "angles_nondecreasing tb \<longleftrightarrow> sorted (map sint (angles tb))"

text \<open>
  No rotation angle is the least 32-bit integer: the loop negates \<^verbatim>\<open>angles[i]\<close> as an
  \<^verbatim>\<open>int\<close>, and only that value is not the negative of its negation.
\<close>

definition angles_negatable :: "tables \<Rightarrow> bool" where
  "angles_negatable tb \<longleftrightarrow> (\<forall>a \<in> set (angles tb). sint a \<noteq> - (2 ^ 31))"

text \<open>How often the note about constant angles was printed.\<close>

definition notes_emitted :: "message list \<Rightarrow> nat" where
  "notes_emitted out = count_list out AnglesConstantNote"

subsection \<open>Auxiliary definitions\<close>

text \<open>Both components of the rotating vector are at most \<open>B\<close> in magnitude.\<close>

definition acc_le :: "int \<Rightarrow> int64 \<times> int64 \<times> int64 \<Rightarrow> bool" where
  "acc_le B v \<longleftrightarrow> (case v of (x, y, z) \<Rightarrow> \<bar>sint x\<bar> \<le> B \<and> \<bar>sint y\<bar> \<le> B)"

text \<open>
  The product of \<open>1 + 4^-(k + 11)\<close> over the first \<open>i\<close> iterations: the square of the
  gain the rotations apply, and the inverse square of \<^verbatim>\<open>scale\<close>.
\<close>

fun gain_sq :: "nat \<Rightarrow> real" where
  "gain_sq 0 = 1"
| "gain_sq (Suc i) = gain_sq i * (1 + 1 / 4 ^ (i + 11))"

text \<open>
  The loop of the engine for the generated shift amounts \<^verbatim>\<open>INDEX_BITS+i\<close> and one
  angle \<open>a\<close> in every entry of \<^verbatim>\<open>angles\<close>: \<open>n\<close> iterations from iteration \<open>i\<close> on.
\<close>

fun constant_angle_loop :: "int64 \<Rightarrow> nat \<Rightarrow> nat \<Rightarrow> int64 \<times> int64 \<times> int64 \<Rightarrow> int64 \<times> int64 \<times> int64" where
  "constant_angle_loop a 0 i v = v"
| "constant_angle_loop a (Suc n) i (x, y, z) =
     constant_angle_loop a n (Suc i)
       (x - (if z <s 0 then - signed_drop_bit (INDEX_BITS + i) y else signed_drop_bit (INDEX_BITS + i) y),
        y + (if z <s 0 then - signed_drop_bit (INDEX_BITS + i) x else signed_drop_bit (INDEX_BITS + i) x),
        push_bit 1 (z + (if z <s 0 then a else - a)))"

text \<open>
  A table set of the generated shape, used to instantiate the theorems: the generator
  run with every angle equal to 1335089 and the lookup entry \<open>k\<close> equal to
  \<open>(k + 1) * 2^24\<close>.
\<close>

definition example_tables :: tables where
  "example_tables = fst (setup_tables (\<lambda>i. 1335089) (\<lambda>k. word_of_nat (16777216 * (k + 1))))"

text \<open>
  The same loop on the signed values of the accumulators, without wrap-around: the
  shifts are divisions rounding down. It agrees with the loop on words as long as the
  values stay small, which they do from a generated starting vector.
\<close>

definition rotation_step_int :: "nat \<Rightarrow> int \<times> int \<times> int \<Rightarrow> int \<times> int \<times> int" where
  "rotation_step_int i v =
     (case v of (x, y, z) \<Rightarrow>
        (x - (if z < 0 then - (y div 2 ^ (INDEX_BITS + i)) else y div 2 ^ (INDEX_BITS + i)),
         y + (if z < 0 then - (x div 2 ^ (INDEX_BITS + i)) else x div 2 ^ (INDEX_BITS + i)),
         2 * (z + (if z < 0 then 1335089 else - 1335089))))"

fun rotation_int :: "nat \<Rightarrow> nat \<Rightarrow> int \<times> int \<times> int \<Rightarrow> int \<times> int \<times> int" where
  "rotation_int 0 i v = v"
| "rotation_int (Suc n) i v = rotation_int n (Suc i) (rotation_step_int i v)"

definition signed_values :: "int64 \<times> int64 \<times> int64 \<Rightarrow> int \<times> int \<times> int" where
  "signed_values v = (case v of (x, y, z) \<Rightarrow> (sint x, sint y, sint z))"

text \<open>
  The sum of \<open>C / 2^(11 + i) + 1\<close> over the iterations \<open>i < j\<close>: how far a component can
  have moved after \<open>j\<close> iterations while the component that is shifted and added to it
  stays within \<open>C\<close> in magnitude, one unit being allowed for each rounding.
\<close>

definition drift :: "real \<Rightarrow> nat \<Rightarrow> real" where
  "drift C j = C / 1024 * (1 - 1 / 2 ^ j) + real j"

text \<open>
  The accumulators \<open>(x, y, z)\<close> at the start of iteration \<open>j\<close>, for a loop entered with
  \<open>(x0, y0, z0)\<close>. The accumulator \<open>z\<close> has been doubled \<open>j\<close> times and steered to within
  twice the rotation angle of zero. Each component has moved by small shifted copies of
  the other one only. Iteration \<open>i\<close> moves \<open>y\<close> by \<open>x / 2^(11 + i)\<close> and \<open>z / 2^i\<close> by
  1335089 in the opposite direction, so \<open>y + x0 / (2048 * 1335089) * z / 2^j\<close> stays where
  it was at the start, up to the roundings and to the movement of \<open>x\<close>; likewise
  \<open>x - y0 / (2048 * 1335089) * z / 2^j\<close>. The constant 33619992 is \<open>(2^35 + 2^26) / 2^10 + 24\<close>,
  more than a component can move in 24 iterations while the other one stays within
  \<open>2^35 + 2^26\<close>.
\<close>

definition near_start :: "int \<times> int \<times> int \<Rightarrow> nat \<Rightarrow> int \<times> int \<times> int \<Rightarrow> bool" where
  "near_start v0 j v =
     (case v0 of (x0, y0, z0) \<Rightarrow> case v of (x, y, z) \<Rightarrow>
        \<bar>z\<bar> \<le> 2670178 \<and>
        \<bar>real_of_int x - real_of_int x0\<bar> \<le> drift (\<bar>real_of_int y0\<bar> + 33619992) j \<and>
        \<bar>real_of_int y - real_of_int y0\<bar> \<le> drift (\<bar>real_of_int x0\<bar> + 33619992) j \<and>
        \<bar>real_of_int y + real_of_int x0 / 2734262272 * real_of_int z / 2 ^ j
           - (real_of_int y0 + real_of_int x0 / 2734262272 * real_of_int z0)\<bar>
          \<le> drift ((\<bar>real_of_int y0\<bar> + 33619992) / 1024 + 24) j \<and>
        \<bar>real_of_int x - real_of_int y0 / 2734262272 * real_of_int z / 2 ^ j
           - (real_of_int x0 - real_of_int y0 / 2734262272 * real_of_int z0)\<bar>
          \<le> drift ((\<bar>real_of_int x0\<bar> + 33619992) / 1024 + 24) j)"

section \<open>The fields of the phase\<close>

text \<open>
  The masks and shifts of lines 146 to 149 read bits 31 and 30 of the phase as the
  quadrant, bits 29 to 19 as the index and bits 18 to 0 as the residual, whatever the
  upper 32 bits of the \<^verbatim>\<open>int64_t\<close> argument are.
\<close>

lemma CORDIC_MASK_mask: "CORDIC_MASK = mask 19"
  by (simp add: CORDIC_MASK_def CORDIC_BITS_def mask_eq_exp_minus_1)

lemma INDEX_MASK_mask: "INDEX_MASK = push_bit 19 (mask 11)"
  by (simp add: INDEX_MASK_def CORDIC_BITS_def INDEX_BITS_def mask_eq_exp_minus_1)

lemma quadrant_bit1_bit: "quadrant_bit1 z = of_bool (bit z 31)"
  unfolding quadrant_bit1_def CORDIC_BITS_def INDEX_BITS_def
  by (rule bit_word_eqI) (auto simp add: bit_simps)

lemma quadrant_bit0_bit: "quadrant_bit0 z = of_bool (bit z 30)"
  unfolding quadrant_bit0_def CORDIC_BITS_def INDEX_BITS_def
  by (rule bit_word_eqI) (auto simp add: bit_simps)

lemma index_field:
  "signed_drop_bit 19 (z AND INDEX_MASK) = take_bit 11 (drop_bit 19 z)" for z :: int64
  unfolding INDEX_MASK_mask
  by (rule bit_word_eqI) (auto simp add: bit_simps)

lemma residual_field: "residual z = push_bit 2 (take_bit 19 z)"
  by (simp add: residual_def CORDIC_MASK_mask Z_EXTRA_BITS_def take_bit_eq_mask)

lemma signed_take_bit_small:
  fixes k :: int
  assumes "0 \<le> k" "k < 2 ^ 11"
  shows "signed_take_bit 63 k = k" "signed_take_bit 31 k = k"
proof -
  have "(2::int) ^ 11 \<le> 2 ^ 63" "(2::int) ^ 11 \<le> 2 ^ 31" by simp_all
  with assms have "- (2 ^ 63) \<le> k" "k < 2 ^ 63" "- (2 ^ 31) \<le> k" "k < 2 ^ 31"
    by linarith+
  then show "signed_take_bit 63 k = k" "signed_take_bit 31 k = k"
    by (simp_all only: signed_take_bit_int_eq_self)
qed

lemma bit_unat_odd: "bit z n \<longleftrightarrow> odd (unat z div 2 ^ n)" for z :: int64
proof -
  have "bit (unat z) n = bit z n"
    by (simp add: bit_unsigned_iff)
  then show ?thesis
    by (simp add: bit_iff_odd [of "unat z"])
qed

lemma quadrant_bit1_spec: "quadrant_bit1 z = word_of_nat (spec_quadrant_bit1 (unat z))"
  by (simp add: quadrant_bit1_bit bit_unat_odd spec_quadrant_bit1_def INDEX_BITS_def CORDIC_BITS_def
      mod_2_eq_odd)

lemma quadrant_bit0_spec: "quadrant_bit0 z = word_of_nat (spec_quadrant_bit0 (unat z))"
  by (simp add: quadrant_bit0_bit bit_unat_odd spec_quadrant_bit0_def INDEX_BITS_def CORDIC_BITS_def
      mod_2_eq_odd)

lemma index_spec: "index z = int (spec_index (unat z))"
proof -
  let ?w = "take_bit 11 (drop_bit 19 z) :: int64"
  have u: "unat ?w = (unat z div 2 ^ 19) mod 2 ^ 11"
    by (simp add: take_bit_eq_mod drop_bit_eq_div unat_div unat_mod)
  have lt: "uint ?w < 2 ^ 11"
    by (metis unsigned_take_bit_eq take_bit_int_less_exp)
  have ge: "0 \<le> uint ?w" by simp
  have s: "sint ?w = uint ?w"
    using sint_uint [of ?w] signed_take_bit_small(1) [OF ge lt] by simp
  have "sint (scast ?w :: int32) = signed_take_bit 31 (sint ?w)"
    using signed_scast_eq [of ?w, where 'c = 32] by simp
  with s signed_take_bit_small(2) [OF ge lt] have "sint (scast ?w :: int32) = uint ?w" by simp
  also have "\<dots> = int (unat ?w)" by simp
  finally show ?thesis
    by (simp add: index_def spec_index_def CORDIC_BITS_def INDEX_BITS_def index_field u)
qed

lemma residual_spec: "residual z = word_of_nat (spec_residual (unat z))"
proof -
  have "unat (z mod 2 ^ 19) = unat z mod 2 ^ 19"
    by (simp add: unat_mod)
  then have "word_of_nat (unat z mod 2 ^ 19) = z mod 2 ^ 19"
    by (metis of_nat_unat ucast_id)
  then show ?thesis
    by (simp add: residual_field push_bit_eq_mult take_bit_eq_mod spec_residual_def
        CORDIC_BITS_def Z_EXTRA_BITS_def)
qed

lemma index_range: "0 \<le> index z" "index z < int TABLE_SIZE"
  by (simp_all add: index_spec spec_index_def TABLE_SIZE_def INDEX_BITS_def)

lemma mirror_range: "0 \<le> int TABLE_SIZE - 1 - index z" "int TABLE_SIZE - 1 - index z < int TABLE_SIZE"
  using index_range [of z] by simp_all

section \<open>The starting vector\<close>

lemma array_get_nat: "i < length xs \<Longrightarrow> array_get xs (int i) = Inr (xs ! i)"
  by (simp add: array_get_def)

lemma start_vector_spec:
  assumes "tables_sized tb"
  shows "start_vector tb p = Inr
        (if spec_quadrant_bit0 (unat p) = 1
         then (initial tb ! spec_index (unat p),
               initial tb ! (TABLE_SIZE - 1 - spec_index (unat p)),
               2 ^ (CORDIC_BITS + Z_EXTRA_BITS) - word_of_nat (spec_residual (unat p)) - TARGET)
         else (initial tb ! (TABLE_SIZE - 1 - spec_index (unat p)),
               initial tb ! spec_index (unat p),
               word_of_nat (spec_residual (unat p)) - TARGET))"
proof -
  let ?k = "spec_index (unat p)"
  have k: "?k < TABLE_SIZE"
    by (simp add: spec_index_def TABLE_SIZE_def)
  have len: "length (initial tb) = TABLE_SIZE"
    using assms by (simp add: tables_sized_def)
  have m: "int TABLE_SIZE - 1 - index p = int (TABLE_SIZE - 1 - ?k)"
    using k by (simp add: index_spec)
  have g1: "array_get (initial tb) (index p) = Inr (initial tb ! ?k)"
    using k len by (simp add: index_spec array_get_nat)
  have g2: "array_get (initial tb) (int TABLE_SIZE - 1 - index p) = Inr (initial tb ! (TABLE_SIZE - 1 - ?k))"
    unfolding m using k len by (intro array_get_nat) simp
  have q: "quadrant_bit0 p \<noteq> 0 \<longleftrightarrow> spec_quadrant_bit0 (unat p) = 1"
    by (simp add: quadrant_bit0_spec spec_quadrant_bit0_def mod_2_eq_odd)
  show ?thesis
    by (simp add: start_vector_def Let_def g1 g2 q residual_spec)
qed

lemma start_vector_cong:
  assumes "quadrant_bit0 a = quadrant_bit0 b" "index a = index b" "residual a = residual b"
  shows "start_vector tb a = start_vector tb b"
  unfolding start_vector_def assms ..

lemma cordic_rotate_cong:
  assumes "quadrant_bit0 a = quadrant_bit0 b" "index a = index b" "residual a = residual b"
  shows "cordic_rotate tb a shw = cordic_rotate tb b shw"
  by (simp add: cordic_rotate_def start_vector_cong [OF assms])

lemma take_bit_fields:
  "quadrant_bit1 (take_bit 32 z) = quadrant_bit1 z"
  "quadrant_bit0 (take_bit 32 z) = quadrant_bit0 z"
  "index (take_bit 32 z) = index z"
  "residual (take_bit 32 z) = residual z"
proof -
  show "quadrant_bit1 (take_bit 32 z) = quadrant_bit1 z"
    by (simp add: quadrant_bit1_bit bit_take_bit_iff)
  show "quadrant_bit0 (take_bit 32 z) = quadrant_bit0 z"
    by (simp add: quadrant_bit0_bit bit_take_bit_iff)
  have "take_bit 11 (drop_bit 19 (take_bit 32 z)) = take_bit 11 (drop_bit 19 z)"
    by (rule bit_word_eqI) (auto simp add: bit_simps)
  then show "index (take_bit 32 z) = index z"
    by (simp add: index_def CORDIC_BITS_def index_field)
  show "residual (take_bit 32 z) = residual z"
    by (simp add: residual_field)
qed

lemma cordic_take_bit:
  "cordic_sine_cosine tb (take_bit 32 z) shw = cordic_sine_cosine tb z shw"
  unfolding cordic_sine_cosine_def flip_cos_sign_def flip_sin_sign_def take_bit_fields
    cordic_rotate_cong [OF take_bit_fields(2-4)] ..

lemma word_of_int_sint_mod:
  "word_of_int (sint p mod 2 ^ 32) = (take_bit 32 p :: int64)"
  by (metis of_int_sint scast_id take_bit_eq_mod take_bit_of_int)

section \<open>The loop\<close>

lemma sint_uminus_32:
  assumes "sint (a :: int32) \<noteq> - (2 ^ 31)"
  shows "sint (- a) = - sint a"
proof -
  have "- (2 ^ 31) \<le> sint a" "sint a < 2 ^ 31"
    using sint_ge [of a] sint_lt [of a] by simp_all
  with assms have "- (2 ^ 31) \<le> - sint a" "- sint a < 2 ^ 31"
    by linarith+
  then have "signed_take_bit 31 (- sint a) = - sint a"
    by (rule signed_take_bit_int_eq_self)
  moreover have "sint (- a) = signed_take_bit 31 (- sint a)"
    using sint_word_ariths(4) [of a] by simp
  ultimately show ?thesis by simp
qed

lemma scast_uminus_32_64:
  assumes "sint (a :: int32) \<noteq> - (2 ^ 31)"
  shows "(scast (- a) :: int64) = - scast a"
  unfolding scast_eq sint_uminus_32 [OF assms] by simp

lemma cordic_loop_exit: "\<not> i < CORDIC_REPS \<Longrightarrow> cordic_loop tb shw i v tr = Inr (v, tr)"
  by (simp add: cordic_loop.simps)

lemma cordic_loop_fail:
  "i < CORDIC_REPS \<Longrightarrow> cordic_step tb i v = Inl e \<Longrightarrow> cordic_loop tb shw i v tr = Inl e"
  by (simp add: cordic_loop.simps [of tb shw i])

lemma cordic_loop_next:
  "i < CORDIC_REPS \<Longrightarrow> cordic_step tb i v = Inr v' \<Longrightarrow>
   cordic_loop tb shw i v tr = cordic_loop tb shw (i + 1) v' (if shw then tr @ [row v'] else tr)"
  by (simp add: cordic_loop.simps [of tb shw i])

lemma loop_show_inert:
  "map_sum id fst (cordic_loop tb shw i v tr) = map_sum id fst (cordic_loop tb shw' i v tr')"
proof (induction tb shw i v tr arbitrary: tr' rule: cordic_loop.induct)
  case (1 tb shw i v tr)
  show ?case
  proof (cases "i < CORDIC_REPS")
    case False
    then show ?thesis by (simp add: cordic_loop_exit)
  next
    case True
    show ?thesis
    proof (cases "cordic_step tb i v")
      case (Inl e)
      with True show ?thesis by (simp add: cordic_loop_fail)
    next
      case (Inr v')
      with True show ?thesis
        using "1.IH" [OF True Inr] by (simp add: cordic_loop_next)
    qed
  qed
qed

lemma cordic_step_in_bounds:
  assumes "tables_sized tb" "i < CORDIC_REPS"
  shows "cordic_step tb i v \<noteq> Inl OutOfBounds"
proof -
  have "array_get (shifts tb) (int i) = Inr (shifts tb ! i)"
    "array_get (angles tb) (int i) = Inr (angles tb ! i)"
    using assms by (simp_all add: array_get_nat tables_sized_def)
  then show ?thesis
    by (simp add: cordic_step_def Let_def split: prod.splits)
qed

lemma cordic_loop_in_bounds:
  assumes "tables_sized tb"
  shows "cordic_loop tb shw i v tr \<noteq> Inl OutOfBounds"
  using assms
proof (induction tb shw i v tr rule: cordic_loop.induct)
  case (1 tb shw i v tr)
  show ?case
  proof (cases "i < CORDIC_REPS")
    case False
    then show ?thesis by (simp add: cordic_loop_exit)
  next
    case True
    show ?thesis
    proof (cases "cordic_step tb i v")
      case (Inl e)
      with True cordic_step_in_bounds [OF "1.prems" True, of v] show ?thesis
        by (simp add: cordic_loop_fail)
    next
      case (Inr v')
      with True "1.IH" [OF True Inr "1.prems"] show ?thesis
        by (simp add: cordic_loop_next)
    qed
  qed
qed

lemma cordic_rotate_in_bounds:
  assumes "tables_sized tb"
  shows "cordic_rotate tb z shw \<noteq> Inl OutOfBounds"
  by (simp add: cordic_rotate_def start_vector_spec [OF assms] cordic_loop_in_bounds [OF assms])

text \<open>
  With valid tables every iteration succeeds and is the iteration of the
  specification, and the loop entered at \<open>i\<close> runs the iterations \<open>i\<close> to
  \<^verbatim>\<open>CORDIC_REPS\<close>\<open> - 1\<close> in this order.
\<close>

lemma cordic_step_spec:
  assumes "tables_sized tb" "shifts_in_range tb" "angles_negatable tb" "i < CORDIC_REPS"
  shows "cordic_step tb i v = Inr (spec_step tb i v)"
proof -
  obtain x y z where v: "v = (x, y, z)" by (cases v)
  have len: "i < length (shifts tb)" "i < length (angles tb)"
    using assms(1,4) by (simp_all add: tables_sized_def)
  have g: "array_get (shifts tb) (int i) = Inr (shifts tb ! i)"
    "array_get (angles tb) (int i) = Inr (angles tb ! i)"
    using len by (simp_all add: array_get_nat)
  have r: "0 \<le> sint (shifts tb ! i)" "sint (shifts tb ! i) < 64"
    using assms(2) len(1) by (simp_all add: shifts_in_range_def)
  have a: "sint (angles tb ! i) \<noteq> - (2 ^ 31)"
    using assms(3) len(2) by (simp add: angles_negatable_def)
  show ?thesis
    using r scast_uminus_32_64 [OF a]
    by (simp add: v cordic_step_def spec_step_def Let_def spec_sign_def g)
qed

lemma cordic_loop_spec:
  assumes "tables_sized tb" "shifts_in_range tb" "angles_negatable tb"
  shows "n + i = CORDIC_REPS \<Longrightarrow>
     \<exists>tr'. cordic_loop tb shw i v tr = Inr (fold (spec_step tb) [i ..< CORDIC_REPS] v, tr')"
proof (induction n arbitrary: i v tr)
  case 0
  then show ?case by (simp add: cordic_loop_exit)
next
  case (Suc n)
  then have i: "i < CORDIC_REPS" and n: "n + (i + 1) = CORDIC_REPS" by simp_all
  have u: "[i ..< CORDIC_REPS] = i # [i + 1 ..< CORDIC_REPS]"
    using i by (simp add: upt_conv_Cons)
  show ?case
    unfolding cordic_loop_next [OF i cordic_step_spec [OF assms i]] u
    using Suc.IH [OF n] by simp
qed

section \<open>The magnitude of the rotating vector\<close>

text \<open>
  An arithmetic right shift never increases a magnitude, so one iteration at most
  doubles the larger component. Starting below \<open>2^35\<close>, the components stay below
  \<open>2^59\<close> over the 24 iterations, and no 64-bit operation on them wraps around.
\<close>

lemma abs_div_pow2_le: "\<bar>k div 2 ^ n\<bar> \<le> \<bar>k\<bar>" for k :: int
proof (cases "0 \<le> k")
  case True
  have p: "(0::int) < 1" "(1::int) \<le> 2 ^ n" by simp_all
  have "k div 2 ^ n \<le> k div 1"
    by (rule zdiv_mono2 [OF True p])
  moreover have "0 \<le> k div 2 ^ n"
    using True by (simp add: pos_imp_zdiv_nonneg_iff)
  ultimately show ?thesis using True by simp
next
  case False
  then have neg: "k < 0" by simp
  have p: "(0::int) < 1" "(1::int) \<le> 2 ^ n" by simp_all
  have "k div 1 \<le> k div 2 ^ n"
    by (rule zdiv_mono2_neg [OF neg p])
  moreover have "k div 2 ^ n \<le> 0"
    using neg by (simp add: div_nonpos_pos_le0)
  ultimately show ?thesis using neg by simp
qed

lemma sint_shift_abs: "\<bar>sint (signed_drop_bit n x)\<bar> \<le> \<bar>sint x\<bar>"
  by (simp add: sint_signed_drop_bit_eq drop_bit_eq_div abs_div_pow2_le)

lemma signed_take_bit_63_id:
  fixes k :: int
  assumes "\<bar>k\<bar> \<le> 2 ^ 62"
  shows "signed_take_bit 63 k = k"
proof -
  have "(2::int) ^ 62 < 2 ^ 63" by simp
  with assms have "- (2 ^ 63) \<le> k" "k < 2 ^ 63" by linarith+
  then show ?thesis by (rule signed_take_bit_int_eq_self)
qed

lemma sint_add_64:
  fixes a b :: int64
  assumes "\<bar>sint a + sint b\<bar> \<le> 2 ^ 62"
  shows "sint (a + b) = sint a + sint b"
  using sint_word_ariths(1) [of a b] signed_take_bit_63_id [OF assms] by simp

lemma sint_diff_64:
  fixes a b :: int64
  assumes "\<bar>sint a - sint b\<bar> \<le> 2 ^ 62"
  shows "sint (a - b) = sint a - sint b"
  using sint_word_ariths(2) [of a b] signed_take_bit_63_id [OF assms] by simp

lemma sint_uminus_64:
  fixes a :: int64
  assumes "\<bar>sint a\<bar> \<le> 2 ^ 62"
  shows "sint (- a) = - sint a"
proof -
  have "\<bar>- sint a\<bar> \<le> 2 ^ 62" using assms by simp
  then show ?thesis
    using sint_word_ariths(4) [of a] signed_take_bit_63_id [of "- sint a"] by simp
qed

lemma sint_lookup_entry:
  assumes "n < 2 ^ 62"
  shows "sint (word_of_nat n :: int64) = int n"
proof -
  have "\<bar>int n\<bar> \<le> 2 ^ 62" using assms by simp
  then have "signed_take_bit 63 (int n) = int n"
    by (rule signed_take_bit_63_id)
  moreover have "sint (word_of_nat n :: int64) = signed_take_bit 63 (int n)"
    using sint_sbintrunc' [of "int n", where 'a = 64] by simp
  ultimately show ?thesis by simp
qed

lemma cordic_step_bound:
  assumes "cordic_step tb i v = Inr v'" "acc_le B v" "B \<le> 2 ^ 61"
  shows "acc_le (2 * B) v'"
proof -
  obtain x y z where v: "v = (x, y, z)" by (cases v)
  from assms(2) have bx: "\<bar>sint x\<bar> \<le> B" and by': "\<bar>sint y\<bar> \<le> B"
    by (simp_all add: acc_le_def v)
  have B62: "2 * B \<le> 2 ^ 62" using assms(3) by simp
  obtain sh0 where s: "array_get (shifts tb) (int i) = Inr sh0"
    using assms(1) by (cases "array_get (shifts tb) (int i)") (simp_all add: cordic_step_def v)
  have r: "\<not> (sint sh0 < 0 \<or> 64 \<le> sint sh0)"
    using assms(1) by (auto simp add: cordic_step_def v s)
  obtain a where a: "array_get (angles tb) (int i) = Inr a"
    using assms(1) r by (cases "array_get (angles tb) (int i)") (simp_all add: cordic_step_def v s)
  define sh where "sh = nat (sint sh0)"
  have v': "v' = (x - (if z <s 0 then - signed_drop_bit sh y else signed_drop_bit sh y),
               y + (if z <s 0 then - signed_drop_bit sh x else signed_drop_bit sh x),
               push_bit 1 (z + scast (if z <s 0 then a else - a)))"
    using assms(1) r by (auto simp add: cordic_step_def v s a Let_def sh_def)
  let ?tx = "signed_drop_bit sh x" and ?ty = "signed_drop_bit sh y"
  have tx: "\<bar>sint ?tx\<bar> \<le> B" and ty: "\<bar>sint ?ty\<bar> \<le> B"
    using sint_shift_abs [of sh x] sint_shift_abs [of sh y] bx by' by linarith+
  have ntx: "sint (- ?tx) = - sint ?tx" and nty: "sint (- ?ty) = - sint ?ty"
    using tx ty B62 bx by (intro sint_uminus_64; linarith)+
  have x1: "\<bar>sint (x - ?ty)\<bar> \<le> 2 * B"
    using sint_diff_64 [of x ?ty] bx ty B62 by linarith
  have x2: "\<bar>sint (x - - ?ty)\<bar> \<le> 2 * B"
    using sint_diff_64 [of x "- ?ty"] nty bx ty B62 by linarith
  have y1: "\<bar>sint (y + ?tx)\<bar> \<le> 2 * B"
    using sint_add_64 [of y ?tx] by' tx B62 by linarith
  have y2: "\<bar>sint (y + - ?tx)\<bar> \<le> 2 * B"
    using sint_add_64 [of y "- ?tx"] ntx by' tx B62 by linarith
  show ?thesis
    using x1 x2 y1 y2 by (simp add: v' acc_le_def)
qed


lemma cordic_loop_bound:
  assumes "cordic_loop tb shw i v tr = Inr (v', tr')" "i \<le> CORDIC_REPS" "acc_le (2 ^ (35 + i)) v"
  shows "acc_le (2 ^ (35 + CORDIC_REPS)) v'"
  using assms
proof (induction tb shw i v tr rule: cordic_loop.induct)
  case (1 tb shw i v tr)
  show ?case
  proof (cases "i < CORDIC_REPS")
    case False
    with "1.prems" have "i = CORDIC_REPS" "v' = v"
      by (simp_all add: cordic_loop_exit)
    with "1.prems"(3) show ?thesis by simp
  next
    case True
    show ?thesis
    proof (cases "cordic_step tb i v")
      case (Inl e)
      with True "1.prems"(1) show ?thesis by (simp add: cordic_loop_fail)
    next
      case (Inr w)
      have "(2::int) ^ (35 + i) \<le> 2 ^ 61"
        using True by (intro power_increasing) (simp_all add: CORDIC_REPS_def)
      have "35 + (i + 1) = Suc (35 + i)" by simp
      then have "(2::int) ^ (35 + (i + 1)) = 2 * 2 ^ (35 + i)"
        by (simp only: power_Suc)
      with cordic_step_bound [OF Inr "1.prems"(3) \<open>2 ^ (35 + i) \<le> 2 ^ 61\<close>]
      have b: "acc_le (2 ^ (35 + (i + 1))) w" by simp
      have l: "cordic_loop tb shw (i + 1) w (if shw then tr @ [row w] else tr) = Inr (v', tr')"
        using "1.prems"(1) True Inr by (simp add: cordic_loop_next)
      from True have "i + 1 \<le> CORDIC_REPS" by simp
      from "1.IH" [OF True Inr l this b] show ?thesis .
    qed
  qed
qed

lemma cordic_step_succeeds:
  assumes "tables_sized tb" "shifts_in_range tb" "i < CORDIC_REPS"
  shows "\<exists>v'. cordic_step tb i v = Inr v'"
proof -
  have len: "i < length (shifts tb)" "i < length (angles tb)"
    using assms(1,3) by (simp_all add: tables_sized_def)
  have g: "array_get (shifts tb) (int i) = Inr (shifts tb ! i)"
    "array_get (angles tb) (int i) = Inr (angles tb ! i)"
    using len by (simp_all add: array_get_nat)
  have r: "0 \<le> sint (shifts tb ! i)" "sint (shifts tb ! i) < 64"
    using assms(2) len(1) by (simp_all add: shifts_in_range_def)
  show ?thesis
    using r by (simp add: cordic_step_def Let_def g split: prod.splits)
qed

lemma cordic_loop_succeeds:
  assumes "tables_sized tb" "shifts_in_range tb"
  shows "\<exists>r. cordic_loop tb shw i v tr = Inr r"
  using assms
proof (induction tb shw i v tr rule: cordic_loop.induct)
  case (1 tb shw i v tr)
  show ?case
  proof (cases "i < CORDIC_REPS")
    case False
    then show ?thesis using cordic_loop_exit by blast
  next
    case True
    from cordic_step_succeeds [OF "1.prems" True]
    obtain w where w: "cordic_step tb i v = Inr w" by blast
    from "1.IH" [OF True w "1.prems"] True w show ?thesis
      by (simp add: cordic_loop_next)
  qed
qed

lemma start_vector_bound:
  assumes "tables_sized tb" "initial_bounded tb" "start_vector tb p = Inr v"
  shows "acc_le (2 ^ 35) v"
proof -
  let ?k = "spec_index (unat p)"
  have k: "?k < TABLE_SIZE"
    by (simp add: spec_index_def TABLE_SIZE_def)
  have len: "length (initial tb) = TABLE_SIZE"
    using assms(1) by (simp add: tables_sized_def)
  have "initial tb ! ?k \<in> set (initial tb)" "initial tb ! (TABLE_SIZE - 1 - ?k) \<in> set (initial tb)"
    using k len by simp_all
  then have "\<bar>sint (initial tb ! ?k)\<bar> \<le> 2 ^ 35" "\<bar>sint (initial tb ! (TABLE_SIZE - 1 - ?k))\<bar> \<le> 2 ^ 35"
    using assms(2) by (simp_all add: initial_bounded_def OUTPUT_SCALE_def OUTPUT_EXTRA_BITS_def)
  then show ?thesis
    using assms(3) unfolding start_vector_spec [OF assms(1)]
    by (auto simp add: acc_le_def split: if_splits)
qed

lemma cordic_rotate_bound:
  assumes "tables_sized tb" "shifts_in_range tb" "initial_bounded tb"
  shows "\<exists>x y z tr. cordic_rotate tb p shw = Inr ((x, y, z), tr) \<and> \<bar>sint x\<bar> \<le> 2 ^ 59 \<and> \<bar>sint y\<bar> \<le> 2 ^ 59"
proof -
  obtain v where v: "start_vector tb p = Inr v"
    using start_vector_spec [OF assms(1)] by blast
  let ?tr = "if shw then [Header, row v] else []"
  obtain r where r: "cordic_loop tb shw 0 v ?tr = Inr r"
    using cordic_loop_succeeds [OF assms(1,2)] by blast
  obtain x y z tr where rr: "r = ((x, y, z), tr)"
    by (metis prod.exhaust)
  have "acc_le (2 ^ (35 + 0)) v"
    using start_vector_bound [OF assms(1,3) v] by simp
  from cordic_loop_bound [OF r [unfolded rr] _ this]
  have "acc_le (2 ^ (35 + CORDIC_REPS)) (x, y, z)" by simp
  then have "\<bar>sint x\<bar> \<le> 2 ^ 59 \<and> \<bar>sint y\<bar> \<le> 2 ^ 59"
    by (simp add: acc_le_def CORDIC_REPS_def)
  then show ?thesis
    using r rr v by (simp add: cordic_rotate_def)
qed

lemma negated_shift_close:
  fixes x :: int64
  assumes "\<bar>sint x\<bar> \<le> 2 ^ 59"
  shows "\<bar>sint (signed_drop_bit 4 (- x)) + sint (signed_drop_bit 4 x)\<bar> \<le> 1"
proof -
  have "(2::int) ^ 59 \<le> 2 ^ 62" by simp
  with assms have "\<bar>sint x\<bar> \<le> 2 ^ 62" by linarith
  then have n: "sint (- x) = - sint x" by (rule sint_uminus_64)
  have "\<bar>(- k) div 16 + k div 16\<bar> \<le> 1" for k :: int
    by (simp add: zdiv_zminus1_eq_if)
  then show ?thesis
    by (simp add: sint_signed_drop_bit_eq drop_bit_eq_div n)
qed

section \<open>Half a turn\<close>

lemma bit_low_add: "n < 31 \<Longrightarrow> bit (p + 2 ^ 31) n \<longleftrightarrow> bit p n" for p :: int64
proof -
  assume n: "n < 31"
  have t: "take_bit 31 (uint p + 2 ^ 31) = take_bit 31 (uint p)"
    by (simp only: take_bit_eq_mod mod_add_self2)
  have "p + 2 ^ 31 = word_of_int (uint p + 2 ^ 31)"
    by simp
  then have "bit (p + 2 ^ 31) n \<longleftrightarrow> n < 64 \<and> bit (uint p + 2 ^ 31) n"
    by (simp only: bit_word_of_int_iff) simp
  also have "\<dots> \<longleftrightarrow> bit (take_bit 31 (uint p + 2 ^ 31)) n"
    using n by (simp only: bit_take_bit_iff) simp
  also have "\<dots> \<longleftrightarrow> bit (take_bit 31 (uint p)) n"
    by (simp only: t)
  also have "\<dots> \<longleftrightarrow> bit p n"
    using n by (simp add: bit_take_bit_iff bit_uint_iff)
  finally show ?thesis .
qed

lemma bit_31_add: "bit (p + 2 ^ 31) 31 \<longleftrightarrow> \<not> bit p 31" for p :: int64
proof -
  have "p + 2 ^ 31 = word_of_int (uint p + 2 ^ 31)"
    by simp
  then have "bit (p + 2 ^ 31) 31 \<longleftrightarrow> bit (uint p + 2 ^ 31) 31"
    by (simp only: bit_word_of_int_iff) simp
  also have "\<dots> \<longleftrightarrow> odd ((uint p + 2 ^ 31) div 2 ^ 31)"
    by (simp only: bit_iff_odd)
  also have "(uint p + 2 ^ 31) div 2 ^ 31 = uint p div 2 ^ 31 + 1"
    by simp
  also have "odd (uint p div 2 ^ 31 + 1) \<longleftrightarrow> \<not> odd (uint p div 2 ^ 31)"
    by simp
  also have "odd (uint p div 2 ^ 31) \<longleftrightarrow> bit (uint p) 31"
    by (simp only: bit_iff_odd)
  also have "\<dots> \<longleftrightarrow> bit p 31"
    by (simp add: bit_uint_iff)
  finally show ?thesis .
qed

lemma fields_of_flipped_top_bit:
  fixes p q :: int64
  assumes low: "\<And>n. n < 31 \<Longrightarrow> bit q n \<longleftrightarrow> bit p n"
    and top: "bit q 31 \<longleftrightarrow> \<not> bit p 31"
  shows "quadrant_bit1 q \<noteq> 0 \<longleftrightarrow> quadrant_bit1 p = 0"
    "quadrant_bit0 q = quadrant_bit0 p"
    "index q = index p"
    "residual q = residual p"
proof -
  show "quadrant_bit1 q \<noteq> 0 \<longleftrightarrow> quadrant_bit1 p = 0"
    by (simp add: quadrant_bit1_bit top)
  show "quadrant_bit0 q = quadrant_bit0 p"
    by (simp add: quadrant_bit0_bit low)
  have "take_bit 11 (drop_bit 19 q) = take_bit 11 (drop_bit 19 p)"
    by (rule bit_word_eqI) (auto simp add: bit_take_bit_iff bit_drop_bit_eq low)
  then show "index q = index p"
    by (simp add: index_def CORDIC_BITS_def index_field)
  have "take_bit 19 q = take_bit 19 p"
    by (rule bit_word_eqI) (auto simp add: bit_take_bit_iff low)
  then show "residual q = residual p"
    by (simp add: residual_field)
qed

lemmas half_turn_fields = fields_of_flipped_top_bit [OF bit_low_add bit_31_add]

lemma half_turn_phase:
  "word_of_int ((sint p + FULL_CIRCLE div 2) mod FULL_CIRCLE) = (take_bit 32 (p + 2 ^ 31) :: int64)"
proof -
  have f: "FULL_CIRCLE = 2 ^ 32" "FULL_CIRCLE div 2 = 2 ^ 31"
    by (simp_all add: FULL_CIRCLE_def INPUT_BITS_def INDEX_BITS_def CORDIC_BITS_def)
  have "word_of_int ((sint p + 2 ^ 31) mod 2 ^ 32) = (take_bit 32 (word_of_int (sint p + 2 ^ 31)) :: int64)"
    by (metis take_bit_eq_mod take_bit_of_int)
  then show ?thesis
    unfolding f by simp
qed


lemma flip_sin_nonzero: "flip_sin_sign p \<noteq> 0 \<longleftrightarrow> bit p 31"
  by (simp add: flip_sin_sign_def quadrant_bit1_bit)

lemma flip_cos_nonzero: "flip_cos_sign p \<noteq> 0 \<longleftrightarrow> (bit p 31 \<noteq> bit p 30)"
  by (simp add: flip_cos_sign_def quadrant_bit1_bit quadrant_bit0_bit)

lemma half_turn_flips:
  fixes p q :: int64
  assumes "q = take_bit 32 (p + 2 ^ 31)"
  shows "flip_sin_sign q \<noteq> 0 \<longleftrightarrow> flip_sin_sign p = 0"
    and "flip_cos_sign q \<noteq> 0 \<longleftrightarrow> flip_cos_sign p = 0"
    and "cordic_rotate tb q shw = cordic_rotate tb p shw"
proof -
  have b1: "quadrant_bit1 q \<noteq> 0 \<longleftrightarrow> quadrant_bit1 p = 0"
    unfolding assms take_bit_fields by (rule half_turn_fields)
  have b0: "quadrant_bit0 q = quadrant_bit0 p"
    unfolding assms take_bit_fields by (rule half_turn_fields)
  have ix: "index q = index p"
    unfolding assms take_bit_fields by (rule half_turn_fields)
  have rs: "residual q = residual p"
    unfolding assms take_bit_fields by (rule half_turn_fields)
  from b1 have t: "bit q 31 \<longleftrightarrow> \<not> bit p 31"
    by (simp add: quadrant_bit1_bit)
  from b0 have l: "bit q 30 \<longleftrightarrow> bit p 30"
    unfolding quadrant_bit0_bit by (cases "bit q 30"; cases "bit p 30") simp_all
  show "flip_sin_sign q \<noteq> 0 \<longleftrightarrow> flip_sin_sign p = 0"
    using flip_sin_nonzero [of q] flip_sin_nonzero [of p] t by blast
  show "flip_cos_sign q \<noteq> 0 \<longleftrightarrow> flip_cos_sign p = 0"
    using flip_cos_nonzero [of q] flip_cos_nonzero [of p] t l by blast
  show "cordic_rotate tb q shw = cordic_rotate tb p shw"
    by (rule cordic_rotate_cong [OF b0 ix rs])
qed

section \<open>The generated tables\<close>

lemma setup_tables_sized: "tables_sized (fst (setup_tables fa fi))"
  by (simp add: setup_tables_def Let_def tables_sized_def)


lemma sint_shift_entry:
  assumes "n < 64"
  shows "sint (word_of_nat n :: int32) = int n"
proof -
  have "(64::int) \<le> 2 ^ 31" by simp
  with assms have "- (2 ^ 31) \<le> int n" "int n < 2 ^ 31" by linarith+
  then have "signed_take_bit 31 (int n) = int n"
    by (rule signed_take_bit_int_eq_self)
  moreover have "sint (word_of_nat n :: int32) = signed_take_bit 31 (int n)"
    using sint_sbintrunc' [of "int n", where 'a = 32] by simp
  ultimately show ?thesis by simp
qed

lemma setup_shifts_in_range: "shifts_in_range (fst (setup_tables fa fi))"
proof -
  have "0 \<le> sint (word_of_nat (INDEX_BITS + i) :: int32) \<and> sint (word_of_nat (INDEX_BITS + i) :: int32) < 64"
    if "i < CORDIC_REPS" for i
  proof -
    from that have "INDEX_BITS + i < 64"
      by (simp add: INDEX_BITS_def CORDIC_REPS_def)
    then show ?thesis
      by (simp only: sint_shift_entry) simp
  qed
  then show ?thesis
    by (auto simp add: shifts_in_range_def setup_tables_def Let_def)
qed


lemma setup_angles: "angles (fst (setup_tables fa fi)) = map fa [0..<CORDIC_REPS]"
  by (simp add: setup_tables_def Let_def)

lemma setup_notes:
  "notes_emitted (snd (setup_tables fa fi)) = (if fa 0 = fa (CORDIC_REPS - 1) then 1 else 0)"
proof -
  have c0: "count_list (map (\<lambda>i. AngleLine i (f i)) xs) AnglesConstantNote = 0" for f xs
    by (induction xs) simp_all
  then have c: "count_list (Starting # map (\<lambda>i. AngleLine i (f i)) xs) AnglesConstantNote = 0" for f xs
    by simp
  have n: "map fa [0..<CORDIC_REPS] ! 0 = fa 0" "map fa [0..<CORDIC_REPS] ! (CORDIC_REPS - 1) = fa (CORDIC_REPS - 1)"
    by (simp_all add: CORDIC_REPS_def del: upt_Suc)
  show ?thesis
    unfolding notes_emitted_def setup_tables_def Let_def snd_conv tables.simps n
    by (simp add: c0)
qed

lemma example_tables_sized: "tables_sized example_tables"
  unfolding example_tables_def by (rule setup_tables_sized)

lemma example_shifts_in_range: "shifts_in_range example_tables"
  unfolding example_tables_def by (rule setup_shifts_in_range)

lemma example_initial_nth:
  "k < TABLE_SIZE \<Longrightarrow> initial example_tables ! k = word_of_nat (16777216 * (k + 1))"
  by (simp add: example_tables_def setup_tables_def Let_def del: upt_Suc of_nat_mult of_nat_add)

lemma example_initial_bounded: "initial_bounded example_tables"
proof -
  have "\<bar>sint (word_of_nat (16777216 * (k + 1)) :: int64)\<bar> \<le> OUTPUT_SCALE * 2 ^ OUTPUT_EXTRA_BITS"
    if "k < TABLE_SIZE" for k
  proof -
    from that have k: "16777216 * (k + 1) \<le> 16777216 * 2048"
      by (simp add: TABLE_SIZE_def INDEX_BITS_def)
    then have "16777216 * (k + 1) < 2 ^ 62" by simp
    then have "sint (word_of_nat (16777216 * (k + 1)) :: int64) = int (16777216 * (k + 1))"
      by (rule sint_lookup_entry)
    with k show ?thesis
      by (simp add: OUTPUT_SCALE_def OUTPUT_EXTRA_BITS_def)
  qed
  then show ?thesis
    by (auto simp add: initial_bounded_def example_tables_def setup_tables_def Let_def
        simp del: of_nat_mult of_nat_add)
qed

lemma example_shifts: "i < CORDIC_REPS \<Longrightarrow> shifts example_tables ! i = word_of_nat (INDEX_BITS + i)"
  by (simp add: example_tables_def setup_tables_def Let_def del: upt_Suc of_nat_add)


lemma example_angles: "i < CORDIC_REPS \<Longrightarrow> angles example_tables ! i = 1335089"
  by (simp add: example_tables_def setup_angles del: upt_Suc)

section \<open>The values written by the generator\<close>

text \<open>
  Bounds on \<open>arctan\<close> and \<open>sin\<close> from their series, with exact rational arithmetic,
  determine the integers that the real-number reading of \<^verbatim>\<open>setup\<close> stores:
  \<^verbatim>\<open>start_shifts\<close> is \<open>-11\<close>, every rotation angle is 1335089, and the first and the
  last lookup entry are 13176784 and 34359730372.
\<close>

lemma arctan_bounds:
  fixes x :: real
  assumes "0 \<le> x" "x \<le> 1"
  shows "x - x ^ 3 / 3 \<le> arctan x" "arctan x \<le> x"
proof -
  let ?a = "\<lambda>n. 1 / real (n * 2 + 1) * x ^ (n * 2 + 1)"
  have ax: "\<bar>x\<bar> \<le> 1" using assms by simp
  have z: "?a \<longlonglongrightarrow> 0" by (rule zeroseq_arctan_series [OF ax])
  have p: "0 \<le> ?a n" for n using assms by simp
  have m: "?a (Suc n) \<le> ?a n" for n
  proof -
    have "x ^ (Suc n * 2 + 1) \<le> x ^ (n * 2 + 1)"
      using assms by (intro power_decreasing) simp_all
    moreover have "1 / real (Suc n * 2 + 1) \<le> 1 / real (n * 2 + 1)"
      by (intro divide_left_mono) simp_all
    ultimately show ?thesis
      using assms by (intro mult_mono) simp_all
  qed
  have s: "arctan x = (\<Sum>k. (- 1) ^ k * ?a k)"
    by (rule arctan_series [OF ax])
  have "(\<Sum>i<2 * 1. (- 1) ^ i * ?a i) \<le> (\<Sum>i. (- 1) ^ i * ?a i)"
    by (rule summable_Leibniz'(2) [OF z p m])
  then show "x - x ^ 3 / 3 \<le> arctan x"
    unfolding s [symmetric] by (simp add: eval_nat_numeral)
  have "(\<Sum>i. (- 1) ^ i * ?a i) \<le> (\<Sum>i<2 * 0 + 1. (- 1) ^ i * ?a i)"
    by (rule summable_Leibniz'(4) [OF z p m])
  then show "arctan x \<le> x"
    unfolding s [symmetric] by simp
qed

lemma half_table_angle_value: "half_table_angle = PI / 8192"
  by (simp add: half_table_angle_def table_angle_def TABLE_SIZE_def INDEX_BITS_def)

lemma half_table_angle_bounds: "0.000383 < half_table_angle" "half_table_angle < 0.000384"
  by (simp_all add: half_table_angle_value PI_def)

lemma arctan_half_table_angle: "1 / 4096 < arctan half_table_angle" "arctan half_table_angle \<le> 1 / 2048"
proof -
  let ?h = half_table_angle
  have r: "0 \<le> ?h" "?h \<le> 1" using half_table_angle_bounds by simp_all
  have "?h ^ 3 \<le> 0.000384 ^ 3"
    using half_table_angle_bounds r by (intro power_mono) simp_all
  moreover have "(0.000384 :: real) ^ 3 \<le> 0.000003"
    by (simp add: power3_eq_cube)
  ultimately have c: "?h ^ 3 / 3 \<le> 0.000001"
    by linarith
  show "arctan ?h \<le> 1 / 2048"
    using arctan_bounds(2) [OF r] half_table_angle_bounds by simp
  show "1 / 4096 < arctan ?h"
    using arctan_bounds(1) [OF r] half_table_angle_bounds(1) c by simp
qed

lemma start_shifts_value: "start_shifts = - 11"
proof -
  let ?a = "arctan half_table_angle"
  have pos: "0 < ?a" using half_table_angle_bounds by simp
  have "cordic_start = log 2 ?a"
    by (simp add: cordic_start_def log_def)
  moreover have "log 2 ?a \<le> - 11"
    using arctan_half_table_angle(2) pos by (simp add: log_le_iff powr_minus_divide)
  moreover have "- 12 < log 2 ?a"
    using arctan_half_table_angle(1) pos by (simp add: less_log_iff powr_minus_divide)
  ultimately show ?thesis
    unfolding start_shifts_def by (intro ceiling_unique) simp_all
qed

lemma angle_value: "angle i = arctan (1 / 2 ^ (i + 11))"
proof -
  have "real_of_int (int i - start_shifts) = real (i + 11)"
    by (simp add: start_shifts_value)
  then have "(2::real) powr real_of_int (int i - start_shifts) = 2 ^ (i + 11)"
    by (simp only: powr_realpow [of 2, simplified])
  then show ?thesis by (simp add: angle_def)
qed

lemma generated_angle_real:
  defines "E \<equiv> \<lambda>i. real_of_int FULL_CIRCLE * angle i / (2 * PI) * 2 ^ (Z_EXTRA_BITS + i) + 1"
  shows "1335089 \<le> E i" "E i < 1335090"
proof -
  let ?x = "1 / 2 ^ (i + 11) :: real"
  let ?c = "2 ^ 32 * 2 ^ (2 + i) / (2 * PI) :: real"
  have pi: "0 < PI" by (simp add: PI_def)
  have c: "0 < ?c" using pi by simp
  have x: "0 \<le> ?x" "?x \<le> 1 / 2 ^ 11"
    by (simp_all add: power_add field_simps)
  have x1: "?x \<le> 1" using x(2) by simp
  have cx: "?c * ?x = 2 ^ 23 / (2 * PI)"
    by (simp add: power_add)
  have E: "E i = ?c * arctan ?x + 1"
    by (simp add: E_def angle_value FULL_CIRCLE_def INPUT_BITS_def INDEX_BITS_def CORDIC_BITS_def
        Z_EXTRA_BITS_def)
  have "?c * arctan ?x \<le> ?c * ?x"
    using arctan_bounds(2) [OF x(1) x1] c by (simp only: mult_le_cancel_left_pos)
  also have "\<dots> < 1335089"
    unfolding cx by (simp add: PI_def)
  finally show "E i < 1335090" unfolding E by simp
  have "?x ^ 2 \<le> (1 / 2 ^ 11) ^ 2"
    using x by (intro power_mono)
  then have "?x * ?x ^ 2 \<le> ?x * (1 / 2 ^ 22)"
    using x(1) by (intro mult_left_mono) (simp_all add: power_divide)
  then have "?x ^ 3 / 3 \<le> ?x * (1 / 2 ^ 22 / 3)"
    by (simp add: power3_eq_cube power2_eq_square)
  then have "?x * (1 - 1 / 2 ^ 22 / 3) \<le> ?x - ?x ^ 3 / 3"
    by (simp add: algebra_simps)
  also have "\<dots> \<le> arctan ?x"
    by (rule arctan_bounds(1) [OF x(1) x1])
  finally have "?c * (?x * (1 - 1 / 2 ^ 22 / 3)) \<le> ?c * arctan ?x"
    using c by (simp only: mult_le_cancel_left_pos)
  moreover have "?c * (?x * (1 - 1 / 2 ^ 22 / 3)) = 2 ^ 23 / (2 * PI) * (1 - 1 / 2 ^ 22 / 3)"
    using cx by (simp only: mult.assoc [symmetric])
  moreover have "1335088 \<le> 2 ^ 23 / (2 * PI) * (1 - 1 / 2 ^ 22 / 3)"
    by (simp add: PI_def)
  ultimately show "1335089 \<le> E i" unfolding E by linarith
qed

lemma generated_angle_value: "generated_angle i = 1335089"
proof -
  let ?E = "real_of_int FULL_CIRCLE * angle i / (2 * PI) * 2 ^ (Z_EXTRA_BITS + i) + 1"
  have b: "1335089 \<le> ?E" "?E < 1335090"
    by (rule generated_angle_real)+
  then have "\<lfloor>?E\<rfloor> = 1335089"
    by (intro floor_unique) simp_all
  moreover have "0 \<le> ?E" using b(1) by linarith
  ultimately have "c_trunc ?E = 1335089"
    by (simp add: c_trunc_def)
  then show ?thesis
    by (simp add: generated_angle_def)
qed

lemma gain_sq_24_bounds: "1.000000317891459 \<le> gain_sq 24" "gain_sq 24 \<le> 1.0000003178914591"
  by (simp_all add: eval_nat_numeral)

lemma gain_sq_pos: "0 < gain_sq n"
  by (induction n) (simp_all add: add_pos_pos)

lemma scale_upto_gain: "scale_upto n = 1 / sqrt (gain_sq n)"
proof (induction n)
  case 0
  show ?case by simp
next
  case (Suc n)
  have "(1 / 2 ^ (n + 11) :: real)\<^sup>2 = 1 / 4 ^ (n + 11)"
    by (simp add: power_divide power_mult [symmetric] power2_eq_square flip: power_mult_distrib)
  then have "cos (angle n) = 1 / sqrt (1 + 1 / 4 ^ (n + 11))"
    by (simp add: angle_value cos_arctan)
  with Suc show ?case
    by (simp add: real_sqrt_mult)
qed

lemma scale_bounds: "0.9999998410543083 \<le> scale_upto 24" "scale_upto 24 \<le> 0.9999998410543084"
proof -
  let ?g = "gain_sq 24"
  let ?L = "0.9999998410543083 :: real" and ?U = "0.9999998410543084 :: real"
  have g: "0 < ?g" by (rule gain_sq_pos)
  have sg: "0 < sqrt ?g" using g by simp
  have "?L\<^sup>2 * ?g \<le> ?L\<^sup>2 * 1.0000003178914591"
    using gain_sq_24_bounds(2) by (intro mult_left_mono) simp_all
  also have "\<dots> \<le> 1" by (simp add: power2_eq_square)
  finally have "sqrt (?L\<^sup>2 * ?g) \<le> sqrt 1"
    by (simp only: real_sqrt_le_iff)
  then have "?L * sqrt ?g \<le> 1"
    by (simp add: real_sqrt_mult)
  then show "?L \<le> scale_upto 24"
    using sg by (simp add: scale_upto_gain field_simps)
  have "1 \<le> ?U\<^sup>2 * 1.000000317891459"
    by (simp add: power2_eq_square)
  also have "\<dots> \<le> ?U\<^sup>2 * ?g"
    using gain_sq_24_bounds(1) by (intro mult_left_mono) simp_all
  finally have "sqrt 1 \<le> sqrt (?U\<^sup>2 * ?g)"
    by (simp only: real_sqrt_le_iff)
  then have "1 \<le> ?U * sqrt ?g"
    by (simp add: real_sqrt_mult)
  then show "scale_upto 24 \<le> ?U"
    using sg by (simp add: scale_upto_gain field_simps)
qed

lemma table_magnitude_value: "table_magnitude = 2 ^ 35 * scale_upto 24"
proof -
  have "(2::real) powr real OUTPUT_EXTRA_BITS = 2 ^ 4"
    unfolding OUTPUT_EXTRA_BITS_def by (simp only: powr_realpow [of 2, simplified])
  then show ?thesis
    by (simp add: table_magnitude_def OUTPUT_SCALE_def CORDIC_REPS_def)
qed

lemma table_magnitude_bounds: "34359732906.6676 \<le> table_magnitude" "table_magnitude \<le> 34359732906.6677"
  using scale_bounds by (simp_all add: table_magnitude_value)

lemma sin_near_zero: "\<bar>sin x - x\<bar> \<le> \<bar>x\<bar> ^ 3 / 6" for x :: real
  using Maclaurin_sin_bound [of x 3]
  by (simp add: sin_coeff_def eval_nat_numeral)

lemma top_angle_value: "table_angle * real 2047 + half_table_angle = 4095 * PI / 8192"
  by (simp add: half_table_angle_def table_angle_def TABLE_SIZE_def INDEX_BITS_def)

lemma sin_poly_horner:
  fixes t :: real
  shows "(\<Sum>m<20. sin_coeff m * t ^ m) =
    t * (1 - t\<^sup>2 * ((1 / 6 - t\<^sup>2 * ((1 / 120 - t\<^sup>2 * ((1 / 5040 - t\<^sup>2 * ((1 / 362880 - t\<^sup>2 * ((1 / 39916800 - t\<^sup>2 * ((1 / 6227020800 - t\<^sup>2 * ((1 / 1307674368000 - t\<^sup>2 * ((1 / 355687428096000 - t\<^sup>2 * (1 / 121645100408832000))))))))))))))))))"
proof -
  have e: "(\<Sum>m<20. sin_coeff m * t ^ m) =
     t - t ^ 3 / 6 + t ^ 5 / 120 - t ^ 7 / 5040 + t ^ 9 / 362880 - t ^ 11 / 39916800
     + t ^ 13 / 6227020800 - t ^ 15 / 1307674368000 + t ^ 17 / 355687428096000
     - t ^ 19 / 121645100408832000"
    by (simp add: eval_nat_numeral sin_coeff_Suc cos_coeff_Suc)
  show ?thesis
    unfolding e by (simp add: power2_eq_square power_numeral_odd power_numeral_even algebra_simps)
qed


lemma horner_step:
  fixes w b c :: real
  assumes "wl \<le> w" "w \<le> wu" "0 \<le> wl" "l \<le> b" "b \<le> u" "0 \<le> l"
    and "l' \<le> c - wu * u" "c - wl * l \<le> u'"
  shows "l' \<le> c - w * b \<and> c - w * b \<le> u'"
proof -
  have "w * b \<le> wu * u"
    using assms by (intro mult_mono) simp_all
  moreover have "wl * l \<le> w * b"
    using assms by (intro mult_mono) simp_all
  ultimately show ?thesis using assms(7,8) by linarith
qed

lemma sin_top_angle:
  "0.9999999264657 \<le> sin (4095 * PI / 8192)" "sin (4095 * PI / 8192) \<le> 0.9999999264658"
proof -
  define t :: real where "t = 4095 * PI / 8192"
  define w where "w = t\<^sup>2"
  have t: "1.5704128315979252089225 \<le> t" "t \<le> 1.5704128315979252089226"
    by (simp_all add: t_def PI_def)
  have w: "2.4661964616474134014982 \<le> w" "w \<le> 2.4661964616474134014983" "(0::real) \<le> 2.4661964616474134014982"
    by (simp_all add: w_def t_def PI_def power2_eq_square)
  define b9 :: real where "b9 = 1 / 121645100408832000"
  have b9: "0.0000000000000000082206 \<le> b9 \<and> b9 \<le> 0.0000000000000000082207"
    by (simp add: b9_def)
  define b8 where "b8 = 1 / 355687428096000 - w * b9"
  have b8: "0.0000000000000027911833 \<le> b8 \<and> b8 \<le> 0.0000000000000027911837"
    unfolding b8_def
    by (rule horner_step [OF w(1,2,3) conjunct1 [OF b9] conjunct2 [OF b9]]) simp_all
  define b7 where "b7 = 1 / 1307674368000 - w * b8"
  have b7: "0.0000000000007578327658 \<le> b7 \<and> b7 \<le> 0.0000000000007578327669"
    unfolding b7_def
    by (rule horner_step [OF w(1,2,3) conjunct1 [OF b8] conjunct2 [OF b8]]) simp_all
  define b6 where "b6 = 1 / 6227020800 - w * b7"
  have b6: "0.0000000001587214738799 \<le> b6 \<and> b6 \<le> 0.0000000001587214738827"
    unfolding b6_def
    by (rule horner_step [OF w(1,2,3) conjunct1 [OF b7] conjunct2 [OF b7]]) simp_all
  define b5 where "b5 = 1 / 39916800 - w * b6"
  have b5: "0.0000000246606700481647 \<le> b5 \<and> b5 \<le> 0.0000000246606700481717"
    unfolding b5_def
    by (rule horner_step [OF w(1,2,3) conjunct1 [OF b6] conjunct2 [OF b6]]) simp_all
  define b4 where "b4 = 1 / 362880 - w * b5"
  have b4: "0.0000026949138651839336 \<le> b4 \<and> b4 \<le> 0.0000026949138651839510"
    unfolding b4_def
    by (rule horner_step [OF w(1,2,3) conjunct1 [OF b5] conjunct2 [OF b5]]) simp_all
  define b3 where "b3 = 1 / 5040 - w * b4"
  have b3: "0.0001917665113739371982 \<le> b3 \<and> b3 \<le> 0.0001917665113739372412"
    unfolding b3_def
    by (rule horner_step [OF w(1,2,3) conjunct1 [OF b4] conjunct2 [OF b4]]) simp_all
  define b2 where "b2 = 1 / 120 - w * b3"
  have b2: "0.0078603994415204608520 \<le> b2 \<and> b2 \<le> 0.0078603994415204609581"
    unfolding b2_def
    by (rule horner_step [OF w(1,2,3) conjunct1 [OF b3] conjunct2 [OF b3]]) simp_all
  define b1 where "b1 = 1 / 6 - w * b2"
  have b1: "0.1472813773768536014531 \<le> b1 \<and> b1 \<le> 0.1472813773768536017149"
    unfolding b1_def
    by (rule horner_step [OF w(1,2,3) conjunct1 [OF b2] conjunct2 [OF b2]]) simp_all
  define b0 where "b0 = 1 / 1 - w * b1"
  have b0: "0.6367751882466462466307 \<le> b0 \<and> b0 \<le> 0.6367751882466462472764"
    unfolding b0_def
    by (rule horner_step [OF w(1,2,3) conjunct1 [OF b1] conjunct2 [OF b1]]) simp_all
  have p: "(\<Sum>m<20. sin_coeff m * t ^ m) = t * b0"
    unfolding sin_poly_horner b0_def b1_def b2_def b3_def b4_def b5_def b6_def b7_def b8_def b9_def w_def by simp
  have "1.5704128315979252089225 * 0.6367751882466462466307 \<le> t * b0"
    using t b0 by (intro mult_mono) simp_all
  then have pl: "0.9999999264657175958958 \<le> t * b0" by simp
  have "t * b0 \<le> 1.5704128315979252089226 * 0.6367751882466462472764"
    using t b0 by (intro mult_mono) simp_all
  then have pu: "t * b0 \<le> 0.9999999264657175969100" by simp
  have "\<bar>t\<bar> ^ 20 \<le> 1.6 ^ 20"
    using t by (intro power_mono) simp_all
  then have "inverse (fact 20) * \<bar>t\<bar> ^ 20 \<le> inverse (fact 20) * 1.6 ^ 20"
    by (intro mult_left_mono) simp_all
  also have "\<dots> \<le> (0.000000000000005 :: real)"
    by (simp add: eval_nat_numeral)
  finally have e: "inverse (fact 20) * \<bar>t\<bar> ^ 20 \<le> (0.000000000000005 :: real)" .
  have m: "\<bar>sin t - t * b0\<bar> \<le> inverse (fact 20) * \<bar>t\<bar> ^ 20"
    using Maclaurin_sin_bound [of t 20] unfolding p .
  have d: "\<bar>sin t - t * b0\<bar> \<le> 0.000000000000005"
    using m e by (rule order_trans)
  have "\<bar>a - b\<bar> \<le> c \<Longrightarrow> b - c \<le> a \<and> a \<le> b + c" for a b c :: real
    by linarith
  from this [OF d]
  have s: "t * b0 - 0.000000000000005 \<le> sin t" "sin t \<le> t * b0 + 0.000000000000005"
    by blast+
  have "(0.9999999264657 :: real) \<le> 0.9999999264657175958958 - 0.000000000000005"
    by simp
  also have "\<dots> \<le> t * b0 - 0.000000000000005"
    using pl by (rule diff_right_mono)
  also note s(1)
  finally show "0.9999999264657 \<le> sin (4095 * PI / 8192)"
    unfolding t_def .
  note s(2)
  also have "t * b0 + 0.000000000000005 \<le> 0.9999999264657175969100 + 0.000000000000005"
    using pu by (rule add_right_mono)
  also have "\<dots> \<le> (0.9999999264658 :: real)"
    by simp
  finally show "sin (4095 * PI / 8192) \<le> 0.9999999264658"
    unfolding t_def .
qed

lemma guard_half_value: "(2::real) powr (real OUTPUT_EXTRA_BITS - 1) = 8"
proof -
  have "real OUTPUT_EXTRA_BITS - 1 = real 3"
    by (simp add: OUTPUT_EXTRA_BITS_def)
  then have "(2::real) powr (real OUTPUT_EXTRA_BITS - 1) = 2 ^ 3"
    by (simp only: powr_realpow [of 2, simplified])
  then show ?thesis by simp
qed

lemma c_trunc_floor: "of_int n \<le> r \<Longrightarrow> r < of_int n + 1 \<Longrightarrow> 0 \<le> n \<Longrightarrow> c_trunc r = n"
proof -
  assume a: "of_int n \<le> r" "r < of_int n + 1" "0 \<le> n"
  then have "\<lfloor>r\<rfloor> = n" by (intro floor_unique)
  moreover have "0 \<le> r" using a by linarith
  ultimately show ?thesis by (simp add: c_trunc_def)
qed

lemma generated_initial_last: "generated_initial 2047 = 34359730372"
proof -
  let ?s = "sin (4095 * PI / 8192)"
  let ?T = table_magnitude
  have "34359732906.6676 * 0.9999999264657 \<le> ?T * ?s"
    using table_magnitude_bounds(1) sin_top_angle(1) by (intro mult_mono) simp_all
  then have l: "34359730372 \<le> ?T * ?s - 8" by simp
  have "?T * ?s \<le> 34359732906.6677 * 0.9999999264658"
    using table_magnitude_bounds sin_top_angle by (intro mult_mono) simp_all
  then have u: "?T * ?s - 8 < 34359730372 + 1" by simp
  have ct: "c_trunc (?T * ?s - 8) = 34359730372"
    using l u by (intro c_trunc_floor) simp_all
  have a: "table_angle * real 2047 + half_table_angle = 4095 * PI / 8192"
    by (simp add: half_table_angle_def table_angle_def TABLE_SIZE_def INDEX_BITS_def)
  have "generated_initial 2047 = word_of_int (c_trunc (?T * ?s - 8))"
    unfolding generated_initial_def guard_half_value a ..
  also have "\<dots> = word_of_int 34359730372"
    by (simp only: ct)
  also have "\<dots> = 34359730372"
    by simp
  finally show ?thesis .
qed

lemma generated_initial_first: "generated_initial 0 = 13176784"
proof -
  let ?h = "PI / 8192"
  let ?T = table_magnitude
  have h: "0.000383495196 \<le> ?h" "?h \<le> 0.000383495197"
    by (simp_all add: PI_def)
  have "\<bar>?h\<bar> ^ 3 \<le> 0.000383495197 ^ 3"
    using h by (intro power_mono) simp_all
  also have "\<dots> \<le> (0.00000000006 :: real)"
    by (simp add: power3_eq_cube)
  finally have c: "\<bar>?h\<bar> ^ 3 / 6 \<le> 0.00000000001" by simp
  have n: "\<bar>a - b\<bar> \<le> c \<Longrightarrow> c \<le> e \<Longrightarrow> l + e \<le> b \<Longrightarrow> l \<le> a" for a b c e l :: real
    by linarith
  have "(0.000383495186 :: real) + 0.00000000001 \<le> ?h"
    by (simp add: PI_def)
  from n [OF sin_near_zero [of ?h] c this]
  have sl: "0.000383495186 \<le> sin ?h" .
  have su: "sin ?h \<le> 0.000383495197"
    using sin_x_le_x [of ?h] h by simp
  have "34359732906.6676 * 0.000383495186 \<le> ?T * sin ?h"
    using table_magnitude_bounds(1) sl by (intro mult_mono) simp_all
  then have l: "13176784 \<le> ?T * sin ?h - 8" by simp
  have "?T * sin ?h \<le> 34359732906.6677 * 0.000383495197"
    using table_magnitude_bounds su sl by (intro mult_mono) simp_all
  then have u: "?T * sin ?h - 8 < 13176784 + 1" by simp
  have ct: "c_trunc (?T * sin ?h - 8) = 13176784"
    using l u by (intro c_trunc_floor) simp_all
  have a: "table_angle * real 0 + half_table_angle = ?h"
    by (simp add: half_table_angle_value)
  have "generated_initial 0 = word_of_int (c_trunc (?T * sin ?h - 8))"
    unfolding generated_initial_def guard_half_value a ..
  also have "\<dots> = word_of_int 13176784"
    by (simp only: ct)
  also have "\<dots> = 13176784"
    by simp
  finally show ?thesis .
qed

section \<open>The engine on the generated tables\<close>

lemma generated_tables_sized: "tables_sized generated_tables"
  unfolding generated_tables_def by (rule setup_tables_sized)

lemma generated_shifts: "i < CORDIC_REPS \<Longrightarrow> shifts generated_tables ! i = word_of_nat (INDEX_BITS + i)"
  by (simp add: generated_tables_def setup_tables_def Let_def del: upt_Suc of_nat_add)

lemma generated_angles: "i < CORDIC_REPS \<Longrightarrow> angles generated_tables ! i = 1335089"
  by (simp add: generated_tables_def setup_angles generated_angle_value del: upt_Suc)

lemma generated_initial_nth: "k < TABLE_SIZE \<Longrightarrow> initial generated_tables ! k = generated_initial k"
  by (simp add: generated_tables_def setup_tables_def Let_def del: upt_Suc)

lemma generated_step:
  assumes "i < CORDIC_REPS"
  shows "cordic_step generated_tables i (x, y, z) =
     Inr (x - (if z <s 0 then - signed_drop_bit (INDEX_BITS + i) y else signed_drop_bit (INDEX_BITS + i) y),
          y + (if z <s 0 then - signed_drop_bit (INDEX_BITS + i) x else signed_drop_bit (INDEX_BITS + i) x),
          push_bit 1 (z + (if z <s 0 then 1335089 else - 1335089)))"
proof -
  have len: "i < length (shifts generated_tables)" "i < length (angles generated_tables)"
    using assms generated_tables_sized by (simp_all add: tables_sized_def)
  have g: "array_get (shifts generated_tables) (int i) = Inr (word_of_nat (INDEX_BITS + i))"
    "array_get (angles generated_tables) (int i) = Inr 1335089"
    using len generated_shifts [OF assms] generated_angles [OF assms] by (simp_all only: array_get_nat)
  have r: "INDEX_BITS + i < 64" using assms by (simp add: INDEX_BITS_def CORDIC_REPS_def)
  then have s: "sint (word_of_nat (INDEX_BITS + i) :: int32) = int (INDEX_BITS + i)"
    by (rule sint_shift_entry)
  have a: "(scast (1335089 :: int32) :: int64) = 1335089" "(scast (- 1335089 :: int32) :: int64) = - 1335089"
    by simp_all
  show ?thesis
    unfolding cordic_step_def prod.case g sum.case s Let_def
    using a r by (simp del: of_nat_add)
qed

lemma generated_loop:
  "n + i = CORDIC_REPS \<Longrightarrow>
   cordic_loop generated_tables False i v [] = Inr (constant_angle_loop 1335089 n i v, [])"
proof (induction n arbitrary: i v)
  case 0
  then show ?case by (simp add: cordic_loop_exit)
next
  case (Suc n)
  obtain x y z where v: "v = (x, y, z)" by (cases v)
  from Suc.prems have i: "i < CORDIC_REPS" and n: "n + (i + 1) = CORDIC_REPS" by simp_all
  show ?case
    unfolding v cordic_loop_next [OF i generated_step [OF i]]
    using Suc.IH [OF n] by simp
qed

lemma rotation_from_first_axis:
  "constant_angle_loop 1335089 24 0 (34359730372, 13176784, - 1048576) = (34359738366, - 1, 1339894)"
  by code_simp

lemma rotation_from_second_axis:
  "constant_angle_loop 1335089 24 0 (13176784, 34359730372, 1048576) = (- 1, 34359738366, - 1339894)"
  by code_simp

lemma generated_start_first_axis:
  "start_vector generated_tables 0 = Inr (34359730372, 13176784, - 1048576)"
proof -
  have "spec_quadrant_bit0 (unat (0 :: int64)) = 0" "spec_index (unat (0 :: int64)) = 0"
    "spec_residual (unat (0 :: int64)) = 0"
    by (simp_all add: spec_quadrant_bit0_def spec_index_def spec_residual_def)
  moreover have "TABLE_SIZE - 1 - 0 = 2047" "(0::nat) < TABLE_SIZE" "2047 < TABLE_SIZE"
    by (simp_all add: TABLE_SIZE_def INDEX_BITS_def)
  moreover have "TARGET = 1048576"
    by (simp add: TARGET_def CORDIC_BITS_def Z_EXTRA_BITS_def)
  ultimately show ?thesis
    unfolding start_vector_spec [OF generated_tables_sized]
    by (simp add: generated_initial_nth generated_initial_first generated_initial_last)
qed

lemma generated_start_second_axis:
  assumes "spec_quadrant_bit0 (unat p) = 1" "spec_index (unat p) = 0" "spec_residual (unat p) = 0"
  shows "start_vector generated_tables p = Inr (13176784, 34359730372, 1048576)"
proof -
  have "TABLE_SIZE - 1 - 0 = 2047" "(0::nat) < TABLE_SIZE" "2047 < TABLE_SIZE"
    by (simp_all add: TABLE_SIZE_def INDEX_BITS_def)
  moreover have "2 ^ (CORDIC_BITS + Z_EXTRA_BITS) - 0 - TARGET = (1048576 :: int64)"
    by (simp add: TARGET_def CORDIC_BITS_def Z_EXTRA_BITS_def)
  ultimately show ?thesis
    unfolding start_vector_spec [OF generated_tables_sized] assms
    by (simp add: generated_initial_nth generated_initial_first generated_initial_last)
qed

lemma generated_rotate_first_axis:
  "cordic_rotate generated_tables 0 False = Inr ((34359738366, - 1, 1339894), [])"
proof -
  have "24 + 0 = CORDIC_REPS" by (simp add: CORDIC_REPS_def)
  from generated_loop [OF this] show ?thesis
    by (simp add: cordic_rotate_def generated_start_first_axis rotation_from_first_axis)
qed

lemma generated_rotate_second_axis:
  assumes "spec_quadrant_bit0 (unat p) = 1" "spec_index (unat p) = 0" "spec_residual (unat p) = 0"
  shows "cordic_rotate generated_tables p False = Inr ((- 1, 34359738366, - 1339894), [])"
proof -
  have "24 + 0 = CORDIC_REPS" by (simp add: CORDIC_REPS_def)
  from generated_loop [OF this] show ?thesis
    by (simp add: cordic_rotate_def generated_start_second_axis [OF assms] rotation_from_second_axis)
qed

lemma generated_at_zero:
  "cordic_sine_cosine generated_tables 0 False = Inr ((- 1, 2147483647), [])"
proof -
  have "flip_cos_sign 0 = 0" "flip_sin_sign 0 = 0"
    by (simp_all add: flip_cos_sign_def flip_sin_sign_def quadrant_bit1_bit quadrant_bit0_bit)
  then show ?thesis
    by (simp add: cordic_sine_cosine_def generated_rotate_first_axis OUTPUT_EXTRA_BITS_def)
qed

lemma quarter_fields:
  "spec_quadrant_bit0 (unat (1073741824 :: int64)) = 1" "spec_index (unat (1073741824 :: int64)) = 0"
  "spec_residual (unat (1073741824 :: int64)) = 0"
  by (simp_all add: spec_quadrant_bit0_def spec_index_def spec_residual_def INDEX_BITS_def CORDIC_BITS_def)

lemma three_quarter_fields:
  "spec_quadrant_bit0 (unat (3221225472 :: int64)) = 1" "spec_index (unat (3221225472 :: int64)) = 0"
  "spec_residual (unat (3221225472 :: int64)) = 0"
  by (simp_all add: spec_quadrant_bit0_def spec_index_def spec_residual_def INDEX_BITS_def CORDIC_BITS_def)

lemma generated_at_quarter:
  "cordic_sine_cosine generated_tables 1073741824 False = Inr ((2147483647, 0), [])"
proof -
  have "flip_cos_sign 1073741824 = 1" "flip_sin_sign 1073741824 = 0"
    by (simp_all add: flip_cos_sign_def flip_sin_sign_def quadrant_bit1_spec quadrant_bit0_spec
        spec_quadrant_bit1_def spec_quadrant_bit0_def INDEX_BITS_def CORDIC_BITS_def)
  then show ?thesis
    by (simp add: cordic_sine_cosine_def generated_rotate_second_axis [OF quarter_fields] OUTPUT_EXTRA_BITS_def)
qed

lemma generated_at_three_quarters:
  "cordic_sine_cosine generated_tables 3221225472 False = Inr ((- 2147483648, - 1), [])"
proof -
  have "flip_cos_sign 3221225472 = 0" "flip_sin_sign 3221225472 = 1"
    by (simp_all add: flip_cos_sign_def flip_sin_sign_def quadrant_bit1_spec quadrant_bit0_spec
        spec_quadrant_bit1_def spec_quadrant_bit0_def INDEX_BITS_def CORDIC_BITS_def)
  then show ?thesis
    by (simp add: cordic_sine_cosine_def generated_rotate_second_axis [OF three_quarter_fields] OUTPUT_EXTRA_BITS_def)
qed

lemma rotation_near_first_axis:
  "constant_angle_loop 1335089 24 0 (34359730372, 13176784, - 1048572) = (34359738364, 47, - 975870)"
  by code_simp

lemma past_half_turn_fields:
  "spec_quadrant_bit1 (unat (2147483649 :: int64)) = 1" "spec_quadrant_bit0 (unat (2147483649 :: int64)) = 0"
  "spec_index (unat (2147483649 :: int64)) = 0" "spec_residual (unat (2147483649 :: int64)) = 4"
  by (simp_all add: spec_quadrant_bit1_def spec_quadrant_bit0_def spec_index_def spec_residual_def
      INDEX_BITS_def CORDIC_BITS_def Z_EXTRA_BITS_def)

lemma generated_rotate_past_half_turn:
  "cordic_rotate generated_tables 2147483649 False = Inr ((34359738364, 47, - 975870), [])"
proof -
  have "TABLE_SIZE - 1 - 0 = 2047" "(0::nat) < TABLE_SIZE" "2047 < TABLE_SIZE"
    by (simp_all add: TABLE_SIZE_def INDEX_BITS_def)
  moreover have "4 - TARGET = - 1048572"
    by (simp add: TARGET_def CORDIC_BITS_def Z_EXTRA_BITS_def)
  ultimately have s: "start_vector generated_tables 2147483649 = Inr (34359730372, 13176784, - 1048572)"
    unfolding start_vector_spec [OF generated_tables_sized] past_half_turn_fields
    by (simp add: generated_initial_nth generated_initial_first generated_initial_last)
  have "24 + 0 = CORDIC_REPS" by (simp add: CORDIC_REPS_def)
  from generated_loop [OF this] show ?thesis
    by (simp add: cordic_rotate_def s rotation_near_first_axis)
qed

lemma quarter_phase: "(word_of_int (FULL_CIRCLE div 4) :: int64) = 1073741824"
  by (simp add: FULL_CIRCLE_def INPUT_BITS_def INDEX_BITS_def CORDIC_BITS_def)

text \<open>
  The generated tables have the properties assumed of a table set below: the lookup
  entries are bounded, the shift amounts are valid and the angles do not decrease.
  With the repository's parameters all angles are equal, so \<^verbatim>\<open>setup\<close> prints its note.
\<close>

lemma abs_c_trunc_le: "\<bar>real_of_int (c_trunc r)\<bar> \<le> \<bar>r\<bar>"
proof (cases "0 \<le> r")
  case True
  then have "0 \<le> \<lfloor>r\<rfloor>" by simp
  with True show ?thesis
    by (simp add: c_trunc_def)
next
  case False
  then have "\<lceil>r\<rceil> \<le> 0" by (simp add: ceiling_le_zero)
  moreover have "r \<le> real_of_int \<lceil>r\<rceil>" by simp
  ultimately show ?thesis
    using False by (simp add: c_trunc_def)
qed

lemma generated_initial_magnitude: "\<bar>sint (generated_initial k)\<bar> \<le> 2 ^ 35"
proof -
  let ?s = "sin (table_angle * real k + half_table_angle)"
  let ?v = "table_magnitude * ?s - 2 powr (real OUTPUT_EXTRA_BITS - 1)"
  have T: "0 \<le> table_magnitude" "table_magnitude \<le> 34359732906.6677"
    using table_magnitude_bounds by simp_all
  have "\<bar>table_magnitude * ?s\<bar> \<le> table_magnitude * 1"
    unfolding abs_mult using T(1) by (intro mult_mono) (simp_all add: abs_le_iff)
  then have "\<bar>?v\<bar> \<le> 34359732906.6677 + 8"
    unfolding guard_half_value using T(2) by linarith
  then have "\<bar>real_of_int (c_trunc ?v)\<bar> \<le> 34359732906.6677 + 8"
    using abs_c_trunc_le [of ?v] by linarith
  then have "\<bar>real_of_int (c_trunc ?v)\<bar> \<le> real_of_int (2 ^ 35)"
    by simp
  then have n: "\<bar>c_trunc ?v\<bar> \<le> 2 ^ 35"
    by (simp only: of_int_abs [symmetric] of_int_le_iff)
  have "(2::int) ^ 35 \<le> 2 ^ 62" by simp
  with n have "\<bar>c_trunc ?v\<bar> \<le> 2 ^ 62" by linarith
  then have "signed_take_bit 63 (c_trunc ?v) = c_trunc ?v"
    by (rule signed_take_bit_63_id)
  then have "sint (generated_initial k) = c_trunc ?v"
    unfolding generated_initial_def using sint_sbintrunc' [of "c_trunc ?v", where 'a = 64] by simp
  with n show ?thesis by simp
qed

lemma generated_initial_bounded: "initial_bounded generated_tables"
proof -
  have "\<bar>sint (generated_initial k)\<bar> \<le> OUTPUT_SCALE * 2 ^ OUTPUT_EXTRA_BITS" for k
    using generated_initial_magnitude [of k] by (simp add: OUTPUT_SCALE_def OUTPUT_EXTRA_BITS_def)
  then show ?thesis
    by (auto simp add: initial_bounded_def generated_tables_def setup_tables_def Let_def)
qed

lemma generated_shifts_in_range: "shifts_in_range generated_tables"
  unfolding generated_tables_def by (rule setup_shifts_in_range)

lemma generated_angles_nondecreasing: "angles_nondecreasing generated_tables"
  by (simp add: angles_nondecreasing_def generated_tables_def setup_angles generated_angle_value
      sorted_map del: upt_Suc)

lemma generated_note_emitted:
  "notes_emitted (snd (setup_tables generated_angle generated_initial)) = 1"
  by (simp add: setup_notes generated_angle_value)

lemma generated_angles_negatable: "angles_negatable generated_tables"
proof -
  have "sint a \<noteq> - (2 ^ 31)" if "a \<in> set (angles generated_tables)" for a
  proof -
    from that obtain i where "i < length (angles generated_tables)" "a = angles generated_tables ! i"
      by (auto simp add: in_set_conv_nth)
    moreover have "length (angles generated_tables) = CORDIC_REPS"
      using generated_tables_sized by (simp add: tables_sized_def)
    ultimately have "a = 1335089" by (simp add: generated_angles)
    then show ?thesis by simp
  qed
  then show ?thesis by (simp add: angles_negatable_def)
qed

lemma rotation_near_second_axis:
  "constant_angle_loop 1335089 24 0 (13176784, 34359730372, 1048572) = (47, 34359738364, 975870)"
  by code_simp

lemma generated_rotate_any:
  assumes "start_vector generated_tables p = Inr v"
  shows "\<exists>tr. cordic_rotate generated_tables p shw = Inr (constant_angle_loop 1335089 24 0 v, tr)"
proof -
  let ?tr = "if shw then [Header, row v] else []"
  have "24 + 0 = CORDIC_REPS" by (simp add: CORDIC_REPS_def)
  from generated_loop [OF this, of v]
  have "map_sum id fst (cordic_loop generated_tables shw 0 v ?tr) = Inr (constant_angle_loop 1335089 24 0 v)"
    using loop_show_inert [of generated_tables shw 0 v ?tr False "[]"] by simp
  then obtain tr where "cordic_loop generated_tables shw 0 v ?tr = Inr (constant_angle_loop 1335089 24 0 v, tr)"
    by (cases "cordic_loop generated_tables shw 0 v ?tr") auto
  then show ?thesis
    by (auto simp add: cordic_rotate_def assms)
qed

section \<open>The sign flips\<close>

lemma spec_quadrant_bits:
  "spec_quadrant (unat p) = 2 * of_bool (bit p 31) + of_bool (bit p 30)" for p :: int64
  by (simp add: spec_quadrant_def spec_quadrant_bit1_def spec_quadrant_bit0_def
      INDEX_BITS_def CORDIC_BITS_def bit_unat_odd mod_2_eq_odd)

lemma flip_cos_quadrant: "flip_cos_sign p \<noteq> 0 \<longleftrightarrow> spec_quadrant (unat p) \<in> {1, 2}"
  by (simp add: flip_cos_nonzero spec_quadrant_bits)

lemma flip_sin_quadrant: "flip_sin_sign p \<noteq> 0 \<longleftrightarrow> spec_quadrant (unat p) \<in> {2, 3}"
  by (simp add: flip_sin_nonzero spec_quadrant_bits)

lemma spec_quadrant_range: "spec_quadrant p \<in> {0, 1, 2, 3}"
proof -
  have "spec_quadrant_bit1 p < 2" "spec_quadrant_bit0 p < 2"
    by (simp_all add: spec_quadrant_bit1_def spec_quadrant_bit0_def)
  then show ?thesis
    unfolding spec_quadrant_def by auto
qed

section \<open>The rotation on signed values\<close>

text \<open>
  The loop for the generated shift amounts and angles is followed on the signed values
  of the accumulators. From a starting vector with components of at most \<open>2^35\<close> and
  \<open>z\<close> of at most \<open>2 * 1335089\<close> in magnitude, the invariant \<open>near_start\<close> holds before
  every iteration; it keeps the accumulators small, so that no operation wraps around
  and the loop on words computes what the loop on integers computes.
\<close>

lemma drift_0: "drift C 0 = 0"
  by (simp add: drift_def)

lemma drift_Suc: "drift C (Suc j) = drift C j + C / 2 ^ (11 + j) + 1"
  by (simp add: drift_def power_add field_simps)

lemma drift_le: "0 \<le> C \<Longrightarrow> j \<le> 24 \<Longrightarrow> drift C j \<le> C / 1024 + 24"
proof -
  assume C: "0 \<le> C" and j: "j \<le> 24"
  have "C / 1024 * (1 - 1 / 2 ^ j) \<le> C / 1024"
    using C by (intro mult_left_le) simp_all
  moreover have "real j \<le> 24" using j by simp
  ultimately show ?thesis unfolding drift_def by linarith
qed

lemma div_pow2_real:
  fixes k :: int
  shows "real_of_int (k div 2 ^ s) \<le> real_of_int k / 2 ^ s"
    and "real_of_int k / 2 ^ s - 1 < real_of_int (k div 2 ^ s)"
proof -
  have e: "k div 2 ^ s = \<lfloor>real_of_int k / real_of_int (2 ^ s)\<rfloor>"
    by (simp only: floor_divide_of_int_eq)
  show "real_of_int (k div 2 ^ s) \<le> real_of_int k / 2 ^ s"
    unfolding e by (simp del: floor_divide_of_int_eq)
  show "real_of_int k / 2 ^ s - 1 < real_of_int (k div 2 ^ s)"
    unfolding e using floor_correct [of "real_of_int k / real_of_int (2 ^ s)"]
    by (simp del: floor_divide_of_int_eq)
qed

lemma div_pow2_abs:
  fixes k :: int
  assumes "\<bar>real_of_int k\<bar> \<le> C"
  shows "\<bar>real_of_int (k div 2 ^ s)\<bar> \<le> C / 2 ^ s + 1"
proof -
  have "\<bar>real_of_int k\<bar> / 2 ^ s \<le> C / 2 ^ s"
    using assms by (simp add: divide_right_mono)
  moreover have "\<bar>real_of_int k / 2 ^ s\<bar> = \<bar>real_of_int k\<bar> / 2 ^ s"
    by simp
  ultimately have "\<bar>real_of_int k / 2 ^ s\<bar> \<le> C / 2 ^ s" by simp
  with div_pow2_real [of k s] show ?thesis by linarith
qed

lemma div_pow2_near:
  fixes k :: int
  assumes "\<bar>real_of_int k - c\<bar> \<le> D"
  shows "\<bar>real_of_int (k div 2 ^ s) - c / 2 ^ s\<bar> \<le> D / 2 ^ s + 1"
proof -
  have "\<bar>real_of_int k - c\<bar> / 2 ^ s \<le> D / 2 ^ s"
    using assms by (simp add: divide_right_mono)
  moreover have "\<bar>real_of_int k / 2 ^ s - c / 2 ^ s\<bar> = \<bar>real_of_int k - c\<bar> / 2 ^ s"
    by (simp add: diff_divide_distrib [symmetric])
  ultimately have "\<bar>real_of_int k / 2 ^ s - c / 2 ^ s\<bar> \<le> D / 2 ^ s" by simp
  with div_pow2_real [of k s] show ?thesis by linarith
qed


lemma rotation_step_drift_minus:
  fixes x y x0 :: int
  assumes "\<bar>real_of_int x - real_of_int x0\<bar> \<le> drift C j" "\<bar>real_of_int y\<bar> \<le> C"
  shows "\<bar>real_of_int (x - (if b then - (y div 2 ^ (11 + j)) else y div 2 ^ (11 + j))) - real_of_int x0\<bar>
           \<le> drift C (Suc j)"
  using div_pow2_abs [OF assms(2), of "11 + j"] assms(1)
  unfolding drift_Suc by (cases b) simp_all

lemma rotation_step_drift_plus:
  fixes x y y0 :: int
  assumes "\<bar>real_of_int y - real_of_int y0\<bar> \<le> drift C j" "\<bar>real_of_int x\<bar> \<le> C"
  shows "\<bar>real_of_int (y + (if b then - (x div 2 ^ (11 + j)) else x div 2 ^ (11 + j))) - real_of_int y0\<bar>
           \<le> drift C (Suc j)"
  using div_pow2_abs [OF assms(2), of "11 + j"] assms(1)
  unfolding drift_Suc by (cases b) simp_all

lemma steering_share:
  fixes c :: real and z :: int
  shows "c / 2734262272 * real_of_int (2 * (z + 1335089)) / 2 ^ Suc j =
           c / 2734262272 * real_of_int z / 2 ^ j + c / 2 ^ (11 + j)"
    and "c / 2734262272 * real_of_int (2 * (z + - 1335089)) / 2 ^ Suc j =
           c / 2734262272 * real_of_int z / 2 ^ j - c / 2 ^ (11 + j)"
  by (simp_all add: power_add field_simps)

lemma rotation_step_potential_y:
  fixes x y z x0 :: int
  assumes "\<bar>real_of_int x - real_of_int x0\<bar> \<le> D"
    and "\<bar>real_of_int y + real_of_int x0 / 2734262272 * real_of_int z / 2 ^ j - P\<bar> \<le> drift D j"
  shows "\<bar>real_of_int (y + (if z < 0 then - (x div 2 ^ (11 + j)) else x div 2 ^ (11 + j)))
           + real_of_int x0 / 2734262272
               * real_of_int (2 * (z + (if z < 0 then 1335089 else - 1335089))) / 2 ^ Suc j - P\<bar>
           \<le> drift D (Suc j)"
proof -
  have t: "\<bar>real_of_int (x div 2 ^ (11 + j)) - real_of_int x0 / 2 ^ (11 + j)\<bar> \<le> D / 2 ^ (11 + j) + 1"
    using assms(1) by (rule div_pow2_near)
  show ?thesis
  proof (cases "z < 0")
    case True
    show ?thesis
      unfolding drift_Suc if_P [OF True] steering_share
      using t assms(2) by simp
  next
    case False
    show ?thesis
      unfolding drift_Suc if_not_P [OF False] steering_share
      using t assms(2) by simp
  qed
qed

lemma rotation_step_potential_x:
  fixes x y z y0 :: int
  assumes "\<bar>real_of_int y - real_of_int y0\<bar> \<le> D"
    and "\<bar>real_of_int x - real_of_int y0 / 2734262272 * real_of_int z / 2 ^ j - P\<bar> \<le> drift D j"
  shows "\<bar>real_of_int (x - (if z < 0 then - (y div 2 ^ (11 + j)) else y div 2 ^ (11 + j)))
           - real_of_int y0 / 2734262272
               * real_of_int (2 * (z + (if z < 0 then 1335089 else - 1335089))) / 2 ^ Suc j - P\<bar>
           \<le> drift D (Suc j)"
proof -
  have t: "\<bar>real_of_int (y div 2 ^ (11 + j)) - real_of_int y0 / 2 ^ (11 + j)\<bar> \<le> D / 2 ^ (11 + j) + 1"
    using assms(1) by (rule div_pow2_near)
  show ?thesis
  proof (cases "z < 0")
    case True
    show ?thesis
      unfolding drift_Suc if_P [OF True] steering_share
      using t assms(2) by simp
  next
    case False
    show ?thesis
      unfolding drift_Suc if_not_P [OF False] steering_share
      using t assms(2) by simp
  qed
qed

lemma near_start_0:
  assumes "\<bar>z0\<bar> \<le> 2670178"
  shows "near_start (x0, y0, z0) 0 (x0, y0, z0)"
  using assms by (simp add: near_start_def drift_0)

lemma near_start_magnitude:
  assumes "near_start (x0, y0, z0) j (x, y, z)" "\<bar>x0\<bar> \<le> 2 ^ 35" "\<bar>y0\<bar> \<le> 2 ^ 35" "j \<le> 24"
  shows "\<bar>real_of_int x - real_of_int x0\<bar> \<le> (\<bar>real_of_int y0\<bar> + 33619992) / 1024 + 24"
    and "\<bar>real_of_int y - real_of_int y0\<bar> \<le> (\<bar>real_of_int x0\<bar> + 33619992) / 1024 + 24"
    and "\<bar>real_of_int x\<bar> \<le> \<bar>real_of_int x0\<bar> + 33619992"
    and "\<bar>real_of_int y\<bar> \<le> \<bar>real_of_int y0\<bar> + 33619992"
proof -
  have x0: "\<bar>real_of_int x0\<bar> \<le> 34359738368" and y0: "\<bar>real_of_int y0\<bar> \<le> 34359738368"
    using assms(2,3) by (simp_all only: of_int_abs [symmetric]) simp_all
  have "\<bar>real_of_int x - real_of_int x0\<bar> \<le> drift (\<bar>real_of_int y0\<bar> + 33619992) j"
    using assms(1) by (simp add: near_start_def)
  also have "\<dots> \<le> (\<bar>real_of_int y0\<bar> + 33619992) / 1024 + 24"
    using assms(4) by (intro drift_le) simp_all
  finally show dx: "\<bar>real_of_int x - real_of_int x0\<bar> \<le> (\<bar>real_of_int y0\<bar> + 33619992) / 1024 + 24" .
  have "\<bar>real_of_int y - real_of_int y0\<bar> \<le> drift (\<bar>real_of_int x0\<bar> + 33619992) j"
    using assms(1) by (simp add: near_start_def)
  also have "\<dots> \<le> (\<bar>real_of_int x0\<bar> + 33619992) / 1024 + 24"
    using assms(4) by (intro drift_le) simp_all
  finally show dy: "\<bar>real_of_int y - real_of_int y0\<bar> \<le> (\<bar>real_of_int x0\<bar> + 33619992) / 1024 + 24" .
  have "(\<bar>real_of_int y0\<bar> + 33619992) / 1024 + 24 \<le> 33619992"
    using y0 by simp
  with dx have "\<bar>real_of_int x - real_of_int x0\<bar> \<le> 33619992" by (rule order_trans)
  then show "\<bar>real_of_int x\<bar> \<le> \<bar>real_of_int x0\<bar> + 33619992"
    by linarith
  have "(\<bar>real_of_int x0\<bar> + 33619992) / 1024 + 24 \<le> 33619992"
    using x0 by simp
  with dy have "\<bar>real_of_int y - real_of_int y0\<bar> \<le> 33619992" by (rule order_trans)
  then show "\<bar>real_of_int y\<bar> \<le> \<bar>real_of_int y0\<bar> + 33619992"
    by linarith
qed

lemma near_start_step:
  assumes "near_start (x0, y0, z0) j v" "\<bar>x0\<bar> \<le> 2 ^ 35" "\<bar>y0\<bar> \<le> 2 ^ 35" "j < 24"
  shows "near_start (x0, y0, z0) (Suc j) (rotation_step_int j v)"
proof -
  obtain x y z where v: "v = (x, y, z)" by (cases v)
  have j: "j \<le> 24" using assms(4) by simp
  note m = near_start_magnitude [OF assms(1) [unfolded v] assms(2,3) j]
  from assms(1) have n: "\<bar>z\<bar> \<le> 2670178"
    "\<bar>real_of_int x - real_of_int x0\<bar> \<le> drift (\<bar>real_of_int y0\<bar> + 33619992) j"
    "\<bar>real_of_int y - real_of_int y0\<bar> \<le> drift (\<bar>real_of_int x0\<bar> + 33619992) j"
    "\<bar>real_of_int y + real_of_int x0 / 2734262272 * real_of_int z / 2 ^ j
           - (real_of_int y0 + real_of_int x0 / 2734262272 * real_of_int z0)\<bar>
          \<le> drift ((\<bar>real_of_int y0\<bar> + 33619992) / 1024 + 24) j"
    "\<bar>real_of_int x - real_of_int y0 / 2734262272 * real_of_int z / 2 ^ j
           - (real_of_int x0 - real_of_int y0 / 2734262272 * real_of_int z0)\<bar>
          \<le> drift ((\<bar>real_of_int x0\<bar> + 33619992) / 1024 + 24) j"
    by (simp_all add: near_start_def v)
  have 1: "\<bar>2 * (z + (if z < 0 then 1335089 else - 1335089))\<bar> \<le> 2670178"
    using n(1) by (auto simp add: abs_le_iff)
  note 2 = rotation_step_drift_minus [OF n(2) m(4), of "z < 0"]
  note 3 = rotation_step_drift_plus [OF n(3) m(3), of "z < 0"]
  note 4 = rotation_step_potential_y [OF m(1) n(4)]
  note 5 = rotation_step_potential_x [OF m(2) n(5)]
  show ?thesis
    unfolding near_start_def rotation_step_int_def v prod.case INDEX_BITS_def
    using 1 2 3 4 5 by blast
qed

lemma near_start_loop:
  assumes "\<bar>x0\<bar> \<le> 2 ^ 35" "\<bar>y0\<bar> \<le> 2 ^ 35"
  shows "near_start (x0, y0, z0) j v \<Longrightarrow> j + n \<le> 24 \<Longrightarrow>
     near_start (x0, y0, z0) (j + n) (rotation_int n j v)"
proof (induction n arbitrary: j v)
  case 0
  then show ?case by simp
next
  case (Suc n)
  then have j: "j < 24" and n: "Suc j + n \<le> 24" by simp_all
  from Suc.IH [OF near_start_step [OF Suc.prems(1) assms j] n] show ?case
    by simp
qed


lemma rotation_int_keeps_large:
  assumes "rotation_int 24 0 (x0, y0, z0) = (x, y, z)"
    and "\<bar>x0\<bar> \<le> 2 ^ 35" "\<bar>y0\<bar> \<le> 2 ^ 35" "\<bar>z0\<bar> \<le> 2670178"
  shows "37000000 \<le> x0 \<Longrightarrow> 0 \<le> x" and "37000000 \<le> y0 \<Longrightarrow> 0 \<le> y"
proof -
  have "near_start (x0, y0, z0) (0 + 24) (rotation_int 24 0 (x0, y0, z0))"
    using near_start_0 [OF assms(4)] by (intro near_start_loop assms) simp_all
  then have n: "near_start (x0, y0, z0) 24 (x, y, z)"
    by (simp add: assms(1))
  note m = near_start_magnitude [OF n assms(2,3)]
  have x0: "\<bar>real_of_int x0\<bar> \<le> 34359738368" and y0: "\<bar>real_of_int y0\<bar> \<le> 34359738368"
    using assms(2,3) by (simp_all only: of_int_abs [symmetric]) simp_all
  have r: "(\<bar>real_of_int y0\<bar> + 33619992) / 1024 + 24 \<le> 36000000"
    "(\<bar>real_of_int x0\<bar> + 33619992) / 1024 + 24 \<le> 36000000"
    using x0 y0 by simp_all
  show "0 \<le> x" if "37000000 \<le> x0"
  proof -
    have "37000000 \<le> real_of_int x0" using that by simp
    with m(1) r(1) have "0 \<le> real_of_int x" by linarith
    then show ?thesis by simp
  qed
  show "0 \<le> y" if "37000000 \<le> y0"
  proof -
    have "37000000 \<le> real_of_int y0" using that by simp
    with m(2) r(2) have "0 \<le> real_of_int y" by linarith
    then show ?thesis by simp
  qed
qed

lemma rotation_int_near_first_axis:
  assumes "rotation_int 24 0 (34359730372, 13176784, z0) = (x, y, z)"
    and "- 1048568 \<le> z0" "z0 \<le> 1048576"
  shows "0 \<le> y"
proof -
  have z0: "\<bar>z0\<bar> \<le> 2670178" using assms(2,3) by simp
  have b: "\<bar>34359730372 :: int\<bar> \<le> 2 ^ 35" "\<bar>13176784 :: int\<bar> \<le> 2 ^ 35" by simp_all
  have "near_start (34359730372, 13176784, z0) (0 + 24) (rotation_int 24 0 (34359730372, 13176784, z0))"
    using near_start_0 [OF z0] by (intro near_start_loop b) simp_all
  then have n: "near_start (34359730372, 13176784, z0) 24 (x, y, z)"
    by (simp add: assms(1))
  let ?c = "34359730372 / 2734262272 :: real"
  from n have z: "\<bar>z\<bar> \<le> 2670178"
    and p: "\<bar>real_of_int y + ?c * real_of_int z / 2 ^ 24 - (13176784 + ?c * real_of_int z0)\<bar>
       \<le> drift ((13176784 + 33619992) / 1024 + 24) 24"
    by (simp_all add: near_start_def)
  have "drift ((13176784 + 33619992) / 1024 + 24) 24 \<le> ((13176784 + 33619992) / 1024 + 24) / 1024 + 24"
    by (intro drift_le) simp_all
  also have "\<dots> \<le> 69" by simp
  finally have e: "drift ((13176784 + 33619992) / 1024 + 24) 24 \<le> 69" .
  have "real_of_int z \<le> 2670178" using z by simp
  then have "?c * real_of_int z \<le> ?c * 2670178"
    by (intro mult_left_mono) simp_all
  then have "?c * real_of_int z / 2 ^ 24 \<le> ?c * 2670178 / 2 ^ 24"
    by (intro divide_right_mono) simp_all
  also have "\<dots> \<le> 2" by simp
  finally have 1: "?c * real_of_int z / 2 ^ 24 \<le> 2" .
  have "- 1048568 \<le> real_of_int z0" using assms(2) by simp
  then have "?c * (- 1048568) \<le> ?c * real_of_int z0"
    by (intro mult_left_mono) simp_all
  moreover have "- 13176686 \<le> ?c * (- 1048568)" by simp
  ultimately have 2: "- 13176686 \<le> ?c * real_of_int z0" by linarith
  have "0 \<le> real_of_int y"
    using p e 1 2 by linarith
  then show ?thesis by simp
qed

lemma rotation_int_near_second_axis:
  assumes "rotation_int 24 0 (13176784, 34359730372, z0) = (x, y, z)"
    and "- 1048576 \<le> z0" "z0 \<le> 1048568"
  shows "0 \<le> x"
proof -
  have z0: "\<bar>z0\<bar> \<le> 2670178" using assms(2,3) by simp
  have b: "\<bar>13176784 :: int\<bar> \<le> 2 ^ 35" "\<bar>34359730372 :: int\<bar> \<le> 2 ^ 35" by simp_all
  have "near_start (13176784, 34359730372, z0) (0 + 24) (rotation_int 24 0 (13176784, 34359730372, z0))"
    using near_start_0 [OF z0] by (intro near_start_loop b) simp_all
  then have n: "near_start (13176784, 34359730372, z0) 24 (x, y, z)"
    by (simp add: assms(1))
  let ?c = "34359730372 / 2734262272 :: real"
  from n have z: "\<bar>z\<bar> \<le> 2670178"
    and p: "\<bar>real_of_int x - ?c * real_of_int z / 2 ^ 24 - (13176784 - ?c * real_of_int z0)\<bar>
       \<le> drift ((13176784 + 33619992) / 1024 + 24) 24"
    by (simp_all add: near_start_def)
  have "drift ((13176784 + 33619992) / 1024 + 24) 24 \<le> ((13176784 + 33619992) / 1024 + 24) / 1024 + 24"
    by (intro drift_le) simp_all
  also have "\<dots> \<le> 69" by simp
  finally have e: "drift ((13176784 + 33619992) / 1024 + 24) 24 \<le> 69" .
  have "- 2670178 \<le> real_of_int z" using z by simp
  then have "?c * (- 2670178) \<le> ?c * real_of_int z"
    by (intro mult_left_mono) simp_all
  then have "?c * (- 2670178) / 2 ^ 24 \<le> ?c * real_of_int z / 2 ^ 24"
    by (intro divide_right_mono) simp_all
  moreover have "- 2 \<le> ?c * (- 2670178) / 2 ^ 24" by simp
  ultimately have 1: "- 2 \<le> ?c * real_of_int z / 2 ^ 24" by linarith
  have "real_of_int z0 \<le> 1048568" using assms(3) by simp
  then have "?c * real_of_int z0 \<le> ?c * 1048568"
    by (intro mult_left_mono) simp_all
  moreover have "?c * 1048568 \<le> 13176686" by simp
  ultimately have 2: "?c * real_of_int z0 \<le> 13176686" by linarith
  have "0 \<le> real_of_int x"
    using p e 1 2 by linarith
  then show ?thesis by simp
qed

lemma sint_shift_div: "sint (signed_drop_bit n x) = sint x div 2 ^ n"
  by (simp add: sint_signed_drop_bit_eq drop_bit_eq_div)

lemma sint_double_64:
  fixes w :: int64
  assumes "\<bar>sint w\<bar> \<le> 2 ^ 61"
  shows "sint (push_bit 1 w) = 2 * sint w"
proof -
  have "\<bar>sint w + sint w\<bar> \<le> 2 ^ 62" using assms by simp
  then have s: "sint (w + w) = sint w + sint w" by (rule sint_add_64)
  have e: "push_bit 1 w = w + w" by (simp add: push_bit_eq_mult)
  show ?thesis unfolding e using s by linarith
qed

lemma constant_angle_step_signed:
  fixes x y z :: int64
  assumes "\<bar>sint x\<bar> \<le> 2 ^ 36" "\<bar>sint y\<bar> \<le> 2 ^ 36" "\<bar>sint z\<bar> \<le> 2670178"
  shows "signed_values
     (x - (if z <s 0 then - signed_drop_bit (INDEX_BITS + i) y else signed_drop_bit (INDEX_BITS + i) y),
      y + (if z <s 0 then - signed_drop_bit (INDEX_BITS + i) x else signed_drop_bit (INDEX_BITS + i) x),
      push_bit 1 (z + (if z <s 0 then 1335089 else - 1335089)))
     = rotation_step_int i (sint x, sint y, sint z)"
proof -
  let ?n = "INDEX_BITS + i"
  let ?tx = "signed_drop_bit ?n x" and ?ty = "signed_drop_bit ?n y"
  have p: "(2::int) ^ 36 \<le> 2 ^ 61" "(2::int) ^ 36 + 2 ^ 36 \<le> 2 ^ 62" by simp_all
  have tx: "\<bar>sint ?tx\<bar> \<le> 2 ^ 36" and ty: "\<bar>sint ?ty\<bar> \<le> 2 ^ 36"
    using sint_shift_abs [of ?n x] sint_shift_abs [of ?n y] assms(1,2) by linarith+
  have ntx: "sint (- ?tx) = - sint ?tx" and nty: "sint (- ?ty) = - sint ?ty"
    using tx ty p by (intro sint_uminus_64; linarith)+
  have x1: "sint (x - ?ty) = sint x - sint ?ty"
    using assms(1) ty p by (intro sint_diff_64) linarith
  have x2: "sint (x - - ?ty) = sint x - - sint ?ty"
    using sint_diff_64 [of x "- ?ty"] nty assms(1) ty p by linarith
  have y1: "sint (y + ?tx) = sint y + sint ?tx"
    using assms(2) tx p by (intro sint_add_64) linarith
  have y2: "sint (y + - ?tx) = sint y + - sint ?tx"
    using sint_add_64 [of y "- ?tx"] ntx assms(2) tx p by linarith
  have a: "sint (1335089 :: int64) = 1335089" "sint (- 1335089 :: int64) = - 1335089"
    by simp_all
  have q: "(2670178::int) + 1335089 \<le> 2 ^ 61" "(2670178::int) + 1335089 \<le> 2 ^ 62" by simp_all
  have z1: "sint (z + 1335089) = sint z + 1335089"
    using sint_add_64 [of z 1335089] assms(3) q(2) unfolding a by linarith
  have z2: "sint (z + - 1335089) = sint z + - 1335089"
    using sint_add_64 [of z "- 1335089"] assms(3) q(2) unfolding a by linarith
  have d1: "sint (push_bit 1 (z + 1335089)) = 2 * (sint z + 1335089)"
    using sint_double_64 [of "z + 1335089"] assms(3) q(1) unfolding z1 by linarith
  have d2: "sint (push_bit 1 (z + - 1335089)) = 2 * (sint z + - 1335089)"
    using sint_double_64 [of "z + - 1335089"] assms(3) q(1) unfolding z2 by linarith
  show ?thesis
  proof (cases "z <s 0")
    case True
    then have "sint z < 0" by (simp add: word_sless_alt)
    then show ?thesis
      unfolding if_P [OF True] signed_values_def rotation_step_int_def prod.case x2 y2 d1 nty ntx
        sint_shift_div by simp
  next
    case False
    then have "\<not> sint z < 0" by (simp add: word_sless_alt)
    then show ?thesis
      unfolding if_not_P [OF False] signed_values_def rotation_step_int_def prod.case x1 y1 d2
        sint_shift_div by simp
  qed
qed

lemma abs_le_of_real:
  fixes k :: int
  assumes "\<bar>real_of_int k\<bar> \<le> real_of_int n"
  shows "\<bar>k\<bar> \<le> n"
  using assms by (simp only: of_int_abs [symmetric] of_int_le_iff)

lemma rotation_refines:
  assumes "\<bar>x0\<bar> \<le> 2 ^ 35" "\<bar>y0\<bar> \<le> 2 ^ 35"
  shows "near_start (x0, y0, z0) j (signed_values v) \<Longrightarrow> j + n \<le> 24 \<Longrightarrow>
     signed_values (constant_angle_loop 1335089 n j v) = rotation_int n j (signed_values v)"
proof (induction n arbitrary: j v)
  case 0
  then show ?case by simp
next
  case (Suc n)
  obtain x y z where v: "v = (x, y, z)" by (cases v)
  from Suc.prems have j: "j < 24" "j \<le> 24" and n: "Suc j + n \<le> 24" by simp_all
  have s: "near_start (x0, y0, z0) j (sint x, sint y, sint z)"
    using Suc.prems(1) by (simp add: v signed_values_def)
  note m = near_start_magnitude [OF s assms j(2)]
  have x0: "\<bar>real_of_int x0\<bar> \<le> 34359738368" and y0: "\<bar>real_of_int y0\<bar> \<le> 34359738368"
    using assms by (simp_all only: of_int_abs [symmetric]) simp_all
  have r: "\<bar>real_of_int (sint x)\<bar> \<le> real_of_int (2 ^ 36)" "\<bar>real_of_int (sint y)\<bar> \<le> real_of_int (2 ^ 36)"
    using m(3,4) x0 y0 by simp_all
  note b = abs_le_of_real [OF r(1)] abs_le_of_real [OF r(2)]
  have z: "\<bar>sint z\<bar> \<le> 2670178"
    using s by (simp add: near_start_def)
  note e = constant_angle_step_signed [OF b z, of j]
  have "near_start (x0, y0, z0) (Suc j) (rotation_step_int j (sint x, sint y, sint z))"
    using s assms j(1) by (rule near_start_step)
  from Suc.IH [OF this [folded e] n] show ?case
    unfolding v constant_angle_loop.simps rotation_int.simps signed_values_def [of "(x, y, z)"] prod.case e .
qed

section \<open>The lookup entries away from the first one\<close>

text \<open>
  Every lookup entry but the first is at least 37000000: the angle of entry \<open>k\<close> lies
  between \<open>3 * PI / 8192\<close> and \<open>4095 * PI / 8192\<close>, where the sine is at least 0.0011.
\<close>

lemma sin_ge_of_square:
  fixes t q :: real
  assumes "0 \<le> t" "t * t \<le> q"
  shows "t * (1 - q / 6) \<le> sin t"
proof -
  have "\<bar>t\<bar> ^ 3 = t * (t * t)"
    using assms(1) by (simp add: power3_eq_cube)
  also have "\<dots> \<le> t * q"
    using assms by (intro mult_left_mono)
  finally have "\<bar>t\<bar> ^ 3 / 6 \<le> t * q / 6" by simp
  with sin_near_zero [of t] have "t - t * q / 6 \<le> sin t" by linarith
  then show ?thesis by (simp add: algebra_simps)
qed

lemma sin_table_angle_ge:
  fixes t :: real
  assumes "0.00115 \<le> t" "t \<le> 1.5705"
  shows "0.0011 \<le> sin t"
proof (cases "t \<le> 1 / 2")
  case True
  have "t * t \<le> (1 / 2) * (1 / 2)"
    using assms(1) True by (intro mult_mono) simp_all
  then have "t * t \<le> 1 / 4" by simp
  from sin_ge_of_square [OF _ this] assms(1) have "t * (1 - 1 / 4 / 6) \<le> sin t" by simp
  with assms(1) show ?thesis by simp
next
  case False
  have "t * t \<le> 1.5705 * 1.5705"
    using assms by (intro mult_mono) simp_all
  then have "t * t \<le> 2.4665" by simp
  from sin_ge_of_square [OF _ this] assms(1) have "t * (1 - 2.4665 / 6) \<le> sin t" by simp
  with False show ?thesis by simp
qed

lemma sint_generated_initial:
  "sint (generated_initial k) =
     c_trunc (table_magnitude * sin (table_angle * real k + half_table_angle)
              - 2 powr (real OUTPUT_EXTRA_BITS - 1))"
proof -
  let ?s = "sin (table_angle * real k + half_table_angle)"
  let ?v = "table_magnitude * ?s - 2 powr (real OUTPUT_EXTRA_BITS - 1)"
  have T: "0 \<le> table_magnitude" "table_magnitude \<le> 34359732906.6677"
    using table_magnitude_bounds by simp_all
  have "\<bar>table_magnitude * ?s\<bar> \<le> table_magnitude * 1"
    unfolding abs_mult using T(1) by (intro mult_mono) (simp_all add: abs_le_iff)
  then have "\<bar>?v\<bar> \<le> 34359732906.6677 + 8"
    unfolding guard_half_value using T(2) by linarith
  then have "\<bar>real_of_int (c_trunc ?v)\<bar> \<le> 34359732906.6677 + 8"
    using abs_c_trunc_le [of ?v] by linarith
  then have "\<bar>real_of_int (c_trunc ?v)\<bar> \<le> real_of_int (2 ^ 62)"
    by simp
  then have "\<bar>c_trunc ?v\<bar> \<le> 2 ^ 62"
    by (simp only: of_int_abs [symmetric] of_int_le_iff)
  then have "signed_take_bit 63 (c_trunc ?v) = c_trunc ?v"
    by (rule signed_take_bit_63_id)
  then show ?thesis
    unfolding generated_initial_def using sint_sbintrunc' [of "c_trunc ?v", where 'a = 64] by simp
qed

lemma generated_initial_large:
  assumes "1 \<le> k" "k \<le> 2047"
  shows "37000000 \<le> sint (generated_initial k)"
proof -
  let ?t = "table_angle * real k + half_table_angle"
  let ?v = "table_magnitude * sin ?t - 2 powr (real OUTPUT_EXTRA_BITS - 1)"
  have t: "?t = (2 * real k + 1) * PI / 8192"
    by (simp add: half_table_angle_def table_angle_def TABLE_SIZE_def INDEX_BITS_def field_simps)
  have k: "1 \<le> real k" "real k \<le> 2047" using assms by simp_all
  have "3 * PI / 8192 \<le> ?t" "?t \<le> 4095 * PI / 8192"
    unfolding t using k by (simp_all add: PI_def)
  moreover have "0.00115 \<le> 3 * PI / 8192" "4095 * PI / 8192 \<le> 1.5705"
    by (simp_all add: PI_def)
  ultimately have "0.00115 \<le> ?t" "?t \<le> 1.5705" by linarith+
  then have s: "0.0011 \<le> sin ?t" by (rule sin_table_angle_ge)
  have "34359732906.6676 * 0.0011 \<le> table_magnitude * sin ?t"
    using table_magnitude_bounds(1) s by (intro mult_mono) simp_all
  then have v: "37000001 \<le> ?v"
    unfolding guard_half_value by simp
  then have "0 \<le> ?v" by linarith
  then have "c_trunc ?v = \<lfloor>?v\<rfloor>" by (simp add: c_trunc_def)
  moreover have "37000001 \<le> \<lfloor>?v\<rfloor>"
    using v by (simp add: le_floor_iff)
  ultimately show ?thesis
    unfolding sint_generated_initial by linarith
qed

section \<open>The rotated vector stays in the first quadrant\<close>

text \<open>
  The starting vector consists of two lookup entries whose indices add up to 2047, and
  of a multiple of four between \<open>-2^20\<close> and \<open>2^20\<close> in \<open>z\<close>. A component that starts at an
  entry other than the first starts at 37000000 or more and moves by less. A component
  that starts at the first entry, 13176784, is followed by its invariant: it ends at
  zero or above unless \<open>z\<close> starts at the very end of its range on the side of that
  component's axis, where the loop is evaluated and ends at \<open>-1\<close>.
\<close>

lemma sint_word_of_int_64:
  fixes k :: int
  assumes "\<bar>k\<bar> \<le> 2 ^ 62"
  shows "sint (word_of_int k :: int64) = k"
  using sint_sbintrunc' [of k, where 'a = 64] signed_take_bit_63_id [OF assms] by simp

lemma word_of_sint_64: "sint z = k \<Longrightarrow> z = (word_of_int k :: int64)"
  by auto

lemma multiple_of_four_below:
  fixes m :: int
  assumes "4 dvd m" "m \<le> 1048576"
  shows "m = 1048576 \<or> m = 1048572 \<or> m \<le> 1048568"
proof -
  obtain k where k: "m = 4 * k" using assms(1) by (auto simp add: dvd_def)
  with assms(2) have "k = 262144 \<or> k = 262143 \<or> k \<le> 262142" by linarith
  with k show ?thesis by auto
qed

lemma multiple_of_four_above:
  fixes m :: int
  assumes "4 dvd m" "- 1048576 \<le> m"
  shows "m = - 1048576 \<or> m = - 1048572 \<or> - 1048568 \<le> m"
proof -
  obtain k where k: "m = 4 * k" using assms(1) by (auto simp add: dvd_def)
  with assms(2) have "k = - 262144 \<or> k = - 262143 \<or> - 262142 \<le> k" by linarith
  with k show ?thesis by auto
qed

lemma rotated_accumulators:
  assumes "a + b = 2047" "\<bar>sint z\<bar> \<le> 1048576" "4 dvd sint z"
    and "constant_angle_loop 1335089 24 0 (generated_initial a, generated_initial b, z) = (x, y, z')"
  shows "if a = 0 \<and> sint z = 1048576 then sint x = - 1 else 0 \<le> sint x"
    and "if b = 0 \<and> sint z = - 1048576 then sint y = - 1 else 0 \<le> sint y"
proof -
  let ?x0 = "sint (generated_initial a)" and ?y0 = "sint (generated_initial b)" and ?z0 = "sint z"
  have b: "\<bar>?x0\<bar> \<le> 2 ^ 35" "\<bar>?y0\<bar> \<le> 2 ^ 35"
    by (rule generated_initial_magnitude)+
  have z0: "\<bar>?z0\<bar> \<le> 2670178" using assms(2) by simp
  have "near_start (?x0, ?y0, ?z0) 0 (signed_values (generated_initial a, generated_initial b, z))"
    using near_start_0 [OF z0] by (simp add: signed_values_def)
  from rotation_refines [OF b this, of 24]
  have r: "rotation_int 24 0 (?x0, ?y0, ?z0) = (sint x, sint y, sint z')"
    by (simp add: assms(4) signed_values_def)
  show "if a = 0 \<and> sint z = 1048576 then sint x = - 1 else 0 \<le> sint x"
  proof (cases "a = 0")
    case False
    then have "1 \<le> a" "a \<le> 2047" using assms(1) by simp_all
    then have "37000000 \<le> ?x0" by (rule generated_initial_large)
    from rotation_int_keeps_large(1) [OF r b z0 this] False show ?thesis by simp
  next
    case True
    then have ab: "a = 0" "b = 2047" using assms(1) by simp_all
    have "?z0 \<le> 1048576" using assms(2) by simp
    from multiple_of_four_below [OF assms(3) this]
    consider "?z0 = 1048576" | "?z0 = 1048572" | "?z0 \<le> 1048568"
      by blast
    then show ?thesis
    proof cases
      case 1
      then have z: "z = 1048576" by (auto dest: word_of_sint_64)
      have "x = - 1"
        using assms(4) unfolding ab z generated_initial_first generated_initial_last rotation_from_second_axis by simp
      with 1 ab show ?thesis by simp
    next
      case 2
      then have z: "z = 1048572" by (auto dest: word_of_sint_64)
      have "x = 47"
        using assms(4) unfolding ab z generated_initial_first generated_initial_last rotation_near_second_axis by simp
      with 2 show ?thesis by simp
    next
      case 3
      have s: "?x0 = 13176784" "?y0 = 34359730372"
        unfolding ab generated_initial_first generated_initial_last by simp_all
      have "- 1048576 \<le> ?z0" using assms(2) by simp
      from rotation_int_near_second_axis [OF r [unfolded s] this 3] 3 show ?thesis by simp
    qed
  qed
  show "if b = 0 \<and> sint z = - 1048576 then sint y = - 1 else 0 \<le> sint y"
  proof (cases "b = 0")
    case False
    then have "1 \<le> b" "b \<le> 2047" using assms(1) by simp_all
    then have "37000000 \<le> ?y0" by (rule generated_initial_large)
    from rotation_int_keeps_large(2) [OF r b z0 this] False show ?thesis by simp
  next
    case True
    then have ab: "b = 0" "a = 2047" using assms(1) by simp_all
    have "- 1048576 \<le> ?z0" using assms(2) by simp
    from multiple_of_four_above [OF assms(3) this]
    consider "?z0 = - 1048576" | "?z0 = - 1048572" | "- 1048568 \<le> ?z0"
      by blast
    then show ?thesis
    proof cases
      case 1
      then have z: "z = - 1048576" by (auto dest: word_of_sint_64)
      have "y = - 1"
        using assms(4) unfolding ab z generated_initial_first generated_initial_last rotation_from_first_axis by simp
      with 1 ab show ?thesis by simp
    next
      case 2
      then have z: "z = - 1048572" by (auto dest: word_of_sint_64)
      have "y = 47"
        using assms(4) unfolding ab z generated_initial_first generated_initial_last rotation_near_first_axis by simp
      with 2 show ?thesis by simp
    next
      case 3
      have s: "?x0 = 34359730372" "?y0 = 13176784"
        unfolding ab generated_initial_first generated_initial_last by simp_all
      have "?z0 \<le> 1048576" using assms(2) by simp
      from rotation_int_near_first_axis [OF r [unfolded s] 3 this] 3 show ?thesis by simp
    qed
  qed
qed

lemma phase_fields_sum:
  "n mod 4294967296 = 1073741824 * spec_quadrant n + 524288 * spec_index n + n mod 524288"
proof -
  have 1: "n mod (524288 * 8192) = 524288 * (n div 524288 mod 8192) + n mod 524288"
    by (rule mod_mult2_eq)
  have 2: "n div 524288 mod (2048 * 4) = 2048 * (n div 524288 div 2048 mod 4) + n div 524288 mod 2048"
    by (rule mod_mult2_eq)
  have 3: "n div 524288 div 2048 = n div 1073741824"
    by (simp add: div_mult2_eq [symmetric])
  have 4: "n div 1073741824 mod (2 * 2) = 2 * (n div 1073741824 div 2 mod 2) + n div 1073741824 mod 2"
    by (rule mod_mult2_eq)
  have 5: "n div 1073741824 div 2 = n div 2147483648"
    by (simp add: div_mult2_eq [symmetric])
  show ?thesis
    using 1 2 4 unfolding 3 5
    by (simp add: spec_quadrant_def spec_quadrant_bit1_def spec_quadrant_bit0_def spec_index_def
        INDEX_BITS_def CORDIC_BITS_def)
qed

lemma fields_unique:
  fixes Q K R q :: nat
  assumes "K < 2048" "R < 524288" "1073741824 * Q + 524288 * K + R = 1073741824 * q"
  shows "Q = q \<and> K = 0 \<and> R = 0"
proof -
  have b: "524288 * K + R < 1073741824" using assms(1,2) by linarith
  have "\<not> Q < q" using assms(3) b by linarith
  moreover have "\<not> q < Q" using assms(3) by linarith
  ultimately have "Q = q" by linarith
  with assms(3) show ?thesis by simp
qed

lemma first_phase_of_quadrant:
  "spec_quadrant n = q \<and> spec_index n = 0 \<and> spec_residual n = 0 \<longleftrightarrow>
   q < 4 \<and> n mod 4294967296 = 1073741824 * q"
proof -
  have r: "n mod 524288 < 524288" by simp
  have k: "spec_index n < 2048"
    by (simp add: spec_index_def INDEX_BITS_def)
  have q: "spec_quadrant n < 4"
    using spec_quadrant_range [of n] by auto
  have e: "spec_residual n = 0 \<longleftrightarrow> n mod 524288 = 0"
    by (simp add: spec_residual_def CORDIC_BITS_def)
  show ?thesis
    unfolding phase_fields_sum e using fields_unique [OF k r, of "spec_quadrant n" q] q by auto
qed

lemma generated_start_shape:
  "\<exists>a b z. start_vector generated_tables p = Inr (generated_initial a, generated_initial b, z) \<and>
      a + b = 2047 \<and> \<bar>sint z\<bar> \<le> 1048576 \<and> 4 dvd sint z \<and>
      (a = 0 \<and> sint z = 1048576 \<longleftrightarrow>
         spec_quadrant_bit0 (unat p) = 1 \<and> spec_index (unat p) = 0 \<and> spec_residual (unat p) = 0) \<and>
      (b = 0 \<and> sint z = - 1048576 \<longleftrightarrow>
         spec_quadrant_bit0 (unat p) \<noteq> 1 \<and> spec_index (unat p) = 0 \<and> spec_residual (unat p) = 0)"
proof -
  let ?k = "spec_index (unat p)" and ?r = "spec_residual (unat p)"
  have k: "?k < 2048" "?k < TABLE_SIZE" "TABLE_SIZE - 1 - ?k < TABLE_SIZE" "?k + (TABLE_SIZE - 1 - ?k) = 2047"
    by (simp_all add: spec_index_def INDEX_BITS_def TABLE_SIZE_def)
  have "unat p mod 524288 < 524288" by simp
  then have "unat p mod 524288 \<le> 524287" by linarith
  then have r: "?r \<le> 2097148" "4 dvd ?r"
    by (simp_all add: spec_residual_def CORDIC_BITS_def Z_EXTRA_BITS_def)
  have c: "(2 ^ (CORDIC_BITS + Z_EXTRA_BITS) - word_of_nat ?r - TARGET :: int64) = word_of_int (1048576 - int ?r)"
    "(word_of_nat ?r - TARGET :: int64) = word_of_int (int ?r - 1048576)"
    by (simp_all add: TARGET_def CORDIC_BITS_def Z_EXTRA_BITS_def)
  have m: "\<bar>1048576 - int ?r\<bar> \<le> 2 ^ 62" "\<bar>int ?r - 1048576\<bar> \<le> 2 ^ 62"
    using r(1) by simp_all
  note s = sint_word_of_int_64 [OF m(1)] sint_word_of_int_64 [OF m(2)]
  have d: "4 dvd (1048576 - int ?r)" "4 dvd (int ?r - 1048576)"
    using r(2) by presburger+
  show ?thesis
  proof (cases "spec_quadrant_bit0 (unat p) = 1")
    case True
    define Z :: int64 where "Z = word_of_int (1048576 - int ?r)"
    have sz: "sint Z = 1048576 - int ?r" unfolding Z_def by (rule s(1))
    have 1: "start_vector generated_tables p =
        Inr (generated_initial ?k, generated_initial (TABLE_SIZE - 1 - ?k), Z)"
      unfolding start_vector_spec [OF generated_tables_sized] if_P [OF True] c Z_def
        generated_initial_nth [OF k(2)] generated_initial_nth [OF k(3)] ..
    have 2: "\<bar>sint Z\<bar> \<le> 1048576" unfolding sz using r(1) by simp
    have 3: "4 dvd sint Z" unfolding sz by (rule d(1))
    have 4: "?k = 0 \<and> sint Z = 1048576 \<longleftrightarrow>
         spec_quadrant_bit0 (unat p) = 1 \<and> ?k = 0 \<and> ?r = 0"
      unfolding sz using True by auto
    have 5: "TABLE_SIZE - 1 - ?k = 0 \<and> sint Z = - 1048576 \<longleftrightarrow>
         spec_quadrant_bit0 (unat p) \<noteq> 1 \<and> ?k = 0 \<and> ?r = 0"
      unfolding sz using True r(1) by auto
    show ?thesis
      using 1 k(4) 2 3 4 5 by blast
  next
    case False
    define Z :: int64 where "Z = word_of_int (int ?r - 1048576)"
    have sz: "sint Z = int ?r - 1048576" unfolding Z_def by (rule s(2))
    have 1: "start_vector generated_tables p =
        Inr (generated_initial (TABLE_SIZE - 1 - ?k), generated_initial ?k, Z)"
      unfolding start_vector_spec [OF generated_tables_sized] if_not_P [OF False] c Z_def
        generated_initial_nth [OF k(2)] generated_initial_nth [OF k(3)] ..
    have 0: "TABLE_SIZE - 1 - ?k + ?k = 2047" using k(4) by simp
    have 2: "\<bar>sint Z\<bar> \<le> 1048576" unfolding sz using r(1) by simp
    have 3: "4 dvd sint Z" unfolding sz by (rule d(2))
    have 4: "TABLE_SIZE - 1 - ?k = 0 \<and> sint Z = 1048576 \<longleftrightarrow>
         spec_quadrant_bit0 (unat p) = 1 \<and> ?k = 0 \<and> ?r = 0"
      unfolding sz using False r(1) by auto
    have 5: "?k = 0 \<and> sint Z = - 1048576 \<longleftrightarrow>
         spec_quadrant_bit0 (unat p) \<noteq> 1 \<and> ?k = 0 \<and> ?r = 0"
      unfolding sz using False by auto
    show ?thesis
      using 1 0 2 3 4 5 by blast
  qed
qed

lemma accumulator_output_sign:
  fixes x :: int64
  assumes "\<bar>sint x\<bar> \<le> 2 ^ 59" "if E then sint x = - 1 else 0 \<le> sint x"
  shows "sint (signed_drop_bit 4 (- x)) \<le> 0"
    and "if E then sint (signed_drop_bit 4 x) = - 1 else 0 \<le> sint (signed_drop_bit 4 x)"
proof -
  have "(2::int) ^ 59 \<le> 2 ^ 62" by simp
  with assms(1) have "\<bar>sint x\<bar> \<le> 2 ^ 62" by linarith
  then have n: "sint (- x) = - sint x" by (rule sint_uminus_64)
  have "- 1 \<le> sint x" using assms(2) by (cases E) simp_all
  then have "(- sint x) div 16 \<le> 1 div 16"
    by (intro zdiv_mono1) simp_all
  then have "(- sint x) div 16 \<le> 0" by simp
  then show "sint (signed_drop_bit 4 (- x)) \<le> 0"
    by (simp add: sint_shift_div n)
  show "if E then sint (signed_drop_bit 4 x) = - 1 else 0 \<le> sint (signed_drop_bit 4 x)"
    using assms(2) by (cases E) (simp_all add: sint_shift_div pos_imp_zdiv_nonneg_iff)
qed

lemma quadrant_of_bits:
  "spec_quadrant n \<in> {0, 3} \<and> spec_quadrant_bit0 n = 1 \<longleftrightarrow> spec_quadrant n = 3"
  "spec_quadrant n \<in> {0, 1} \<and> spec_quadrant_bit0 n \<noteq> 1 \<longleftrightarrow> spec_quadrant n = 0"
proof -
  have "spec_quadrant_bit1 n < 2" "spec_quadrant_bit0 n < 2"
    by (simp_all add: spec_quadrant_bit1_def spec_quadrant_bit0_def)
  then show "spec_quadrant n \<in> {0, 3} \<and> spec_quadrant_bit0 n = 1 \<longleftrightarrow> spec_quadrant n = 3"
    "spec_quadrant n \<in> {0, 1} \<and> spec_quadrant_bit0 n \<noteq> 1 \<longleftrightarrow> spec_quadrant n = 0"
    unfolding spec_quadrant_def by (simp_all, presburger+)
qed

section \<open>The claims\<close>

text \<open>
  \<^bold>\<open>C2\<close> (symmetry under half a turn). For a table set of the declared sizes with
  valid shift amounts and lookup entries of magnitude at most \<^verbatim>\<open>OUTPUT_SCALE\<close> times
  \<open>2^OUTPUT_EXTRA_BITS\<close>, and every phase \<open>p\<close> in \<open>[0, FULL_CIRCLE)\<close>, the calls at
  \<open>p\<close> and at \<open>(p + FULL_CIRCLE/2) mod FULL_CIRCLE\<close> both return, they leave the loop with
  the same accumulators and print the same trace, the sign-adjusted values before the
  final shift are exact negations of each other, and each returned sine and cosine
  differs from the negation of the other call's by at most one unit.
\<close>

theorem half_circle_symmetry:
  assumes "tables_sized tb" "shifts_in_range tb" "initial_bounded tb"
    and "0 \<le> sint p" "sint p < FULL_CIRCLE"
    and q: "q = word_of_int ((sint p + FULL_CIRCLE div 2) mod FULL_CIRCLE)"
  shows "\<exists>x y z tr s c s' c'.
     cordic_rotate tb p shw = Inr ((x, y, z), tr) \<and>
     cordic_rotate tb q shw = Inr ((x, y, z), tr) \<and>
     (if flip_sin_sign q \<noteq> 0 then - y else y) = - (if flip_sin_sign p \<noteq> 0 then - y else y) \<and>
     (if flip_cos_sign q \<noteq> 0 then - x else x) = - (if flip_cos_sign p \<noteq> 0 then - x else x) \<and>
     cordic_sine_cosine tb p shw = Inr ((s, c), tr) \<and>
     cordic_sine_cosine tb q shw = Inr ((s', c'), tr) \<and>
     \<bar>sint s' + sint s\<bar> \<le> 1 \<and> \<bar>sint c' + sint c\<bar> \<le> 1"
proof -
  have q': "q = take_bit 32 (p + 2 ^ 31)"
    unfolding q by (rule half_turn_phase)
  note h = half_turn_flips [OF q']
  obtain x y z tr where r: "cordic_rotate tb p shw = Inr ((x, y, z), tr)"
    and bx: "\<bar>sint x\<bar> \<le> 2 ^ 59" and by': "\<bar>sint y\<bar> \<le> 2 ^ 59"
    using cordic_rotate_bound [OF assms(1-3), of p shw] by blast
  have rq: "cordic_rotate tb q shw = Inr ((x, y, z), tr)"
    using h(3) [of tb shw] r by simp
  let ?fy = "\<lambda>w. if flip_sin_sign w \<noteq> 0 then - y else y"
  let ?fx = "\<lambda>w. if flip_cos_sign w \<noteq> 0 then - x else x"
  have ny: "?fy q = - ?fy p" using h(1) by auto
  have nx: "?fx q = - ?fx p" using h(2) by auto
  have cy: "\<bar>sint (signed_drop_bit 4 (?fy q)) + sint (signed_drop_bit 4 (?fy p))\<bar> \<le> 1"
    using negated_shift_close [OF by'] h(1) by (auto simp add: add.commute)
  have cx: "\<bar>sint (signed_drop_bit 4 (?fx q)) + sint (signed_drop_bit 4 (?fx p))\<bar> \<le> 1"
    using negated_shift_close [OF bx] h(2) by (auto simp add: add.commute)
  have sp: "cordic_sine_cosine tb p shw = Inr ((signed_drop_bit 4 (?fy p), signed_drop_bit 4 (?fx p)), tr)"
    by (simp add: cordic_sine_cosine_def r OUTPUT_EXTRA_BITS_def)
  have sq: "cordic_sine_cosine tb q shw = Inr ((signed_drop_bit 4 (?fy q), signed_drop_bit 4 (?fx q)), tr)"
    by (simp add: cordic_sine_cosine_def rq OUTPUT_EXTRA_BITS_def)
  show ?thesis
    using r rq ny nx sp sq cy cx by blast
qed

theorem half_circle_symmetry_witness:
  "tables_sized example_tables \<and> shifts_in_range example_tables \<and>
   initial_bounded example_tables \<and> 0 \<le> sint (5 :: int64) \<and> sint (5 :: int64) < FULL_CIRCLE \<and>
   (\<exists>x y z tr s c s' c'.
     cordic_rotate example_tables 5 False = Inr ((x, y, z), tr) \<and>
     cordic_rotate example_tables (word_of_int ((sint (5 :: int64) + FULL_CIRCLE div 2) mod FULL_CIRCLE)) False
       = Inr ((x, y, z), tr) \<and>
     cordic_sine_cosine example_tables 5 False = Inr ((s, c), tr) \<and>
     cordic_sine_cosine example_tables (word_of_int ((sint (5 :: int64) + FULL_CIRCLE div 2) mod FULL_CIRCLE)) False
       = Inr ((s', c'), tr) \<and>
     \<bar>sint s' + sint s\<bar> \<le> 1 \<and> \<bar>sint c' + sint c\<bar> \<le> 1)"
proof -
  have r: "0 \<le> sint (5 :: int64)" "sint (5 :: int64) < FULL_CIRCLE"
    by (simp_all add: FULL_CIRCLE_def INPUT_BITS_def INDEX_BITS_def CORDIC_BITS_def)
  from half_circle_symmetry [OF example_tables_sized example_shifts_in_range
      example_initial_bounded r refl, of False]
  show ?thesis
    using example_tables_sized example_shifts_in_range example_initial_bounded r by blast
qed

text \<open>
  \<^bold>\<open>C3\<close> (quadrant signs), as amended. With the generated tables the call returns
  for every phase, and the signs follow the quadrant table at every phase but two.
  The returned cosine is not positive in quadrants 1 and 2; in quadrants 0 and 3 it
  is not negative, except at the phase \<open>3 * 2^30\<close> (taken modulo \<open>2^32\<close>), the first of
  quadrant 3, where it is \<open>-1\<close>. The returned sine is not positive in quadrants 2 and
  3; in quadrants 0 and 1 it is not negative, except at the phase 0 (modulo \<open>2^32\<close>),
  where it is \<open>-1\<close>. The quadrant is given by the top two bits of the 32-bit phase.
\<close>

theorem quadrant_signs:
  "\<exists>s c tr. cordic_sine_cosine generated_tables p shw = Inr ((s, c), tr) \<and>
     (if spec_quadrant (unat p) \<in> {0, 3}
      then (if unat p mod 2 ^ 32 = 3 * 2 ^ 30 then sint c = - 1 else 0 \<le> sint c)
      else sint c \<le> 0) \<and>
     (if spec_quadrant (unat p) \<in> {0, 1}
      then (if unat p mod 2 ^ 32 = 0 then sint s = - 1 else 0 \<le> sint s)
      else sint s \<le> 0)"
proof -
  let ?n = "unat p"
  obtain a b z where st: "start_vector generated_tables p = Inr (generated_initial a, generated_initial b, z)"
    and ab: "a + b = 2047" and zb: "\<bar>sint z\<bar> \<le> 1048576" and zd: "4 dvd sint z"
    and e1: "a = 0 \<and> sint z = 1048576 \<longleftrightarrow>
         spec_quadrant_bit0 ?n = 1 \<and> spec_index ?n = 0 \<and> spec_residual ?n = 0"
    and e2: "b = 0 \<and> sint z = - 1048576 \<longleftrightarrow>
         spec_quadrant_bit0 ?n \<noteq> 1 \<and> spec_index ?n = 0 \<and> spec_residual ?n = 0"
    using generated_start_shape [of p] by blast
  obtain x y z' where l: "constant_angle_loop 1335089 24 0 (generated_initial a, generated_initial b, z) = (x, y, z')"
    by (metis prod_cases3)
  obtain tr where rot: "cordic_rotate generated_tables p shw = Inr ((x, y, z'), tr)"
    using generated_rotate_any [OF st, of shw] unfolding l by blast
  have bx: "\<bar>sint x\<bar> \<le> 2 ^ 59" and by': "\<bar>sint y\<bar> \<le> 2 ^ 59"
    using cordic_rotate_bound [OF generated_tables_sized generated_shifts_in_range generated_initial_bounded,
        of p shw] rot by auto
  note acc = rotated_accumulators [OF ab zb zd l]
  note cx = accumulator_output_sign [OF bx acc(1)]
  note sy = accumulator_output_sign [OF by' acc(2)]
  let ?c = "signed_drop_bit 4 (if flip_cos_sign p \<noteq> 0 then - x else x)"
  let ?s = "signed_drop_bit 4 (if flip_sin_sign p \<noteq> 0 then - y else y)"
  have sc: "cordic_sine_cosine generated_tables p shw = Inr ((?s, ?c), tr)"
    by (simp add: cordic_sine_cosine_def rot OUTPUT_EXTRA_BITS_def)
  have X: "?n mod 2 ^ 32 = 3 * 2 ^ 30 \<longleftrightarrow> a = 0 \<and> sint z = 1048576" if "spec_quadrant ?n \<in> {0, 3}"
    using that e1 quadrant_of_bits(1) [of ?n] first_phase_of_quadrant [of ?n 3] by auto
  have Y: "?n mod 2 ^ 32 = 0 \<longleftrightarrow> b = 0 \<and> sint z = - 1048576" if "spec_quadrant ?n \<in> {0, 1}"
    using that e2 quadrant_of_bits(2) [of ?n] first_phase_of_quadrant [of ?n 0] by auto
  have c: "if spec_quadrant ?n \<in> {0, 3}
      then (if ?n mod 2 ^ 32 = 3 * 2 ^ 30 then sint ?c = - 1 else 0 \<le> sint ?c)
      else sint ?c \<le> 0"
  proof (cases "spec_quadrant ?n \<in> {0, 3}")
    case True
    with spec_quadrant_range [of ?n] flip_cos_quadrant [of p] have "\<not> flip_cos_sign p \<noteq> 0" by auto
    then show ?thesis
      using cx(2) True unfolding X [OF True] by simp
  next
    case False
    with spec_quadrant_range [of ?n] flip_cos_quadrant [of p] have "flip_cos_sign p \<noteq> 0" by auto
    then show ?thesis
      using cx(1) False by simp
  qed
  have s: "if spec_quadrant ?n \<in> {0, 1}
      then (if ?n mod 2 ^ 32 = 0 then sint ?s = - 1 else 0 \<le> sint ?s)
      else sint ?s \<le> 0"
  proof (cases "spec_quadrant ?n \<in> {0, 1}")
    case True
    with spec_quadrant_range [of ?n] flip_sin_quadrant [of p] have "\<not> flip_sin_sign p \<noteq> 0" by auto
    then show ?thesis
      using sy(2) True unfolding Y [OF True] by simp
  next
    case False
    with spec_quadrant_range [of ?n] flip_sin_quadrant [of p] have "flip_sin_sign p \<noteq> 0" by auto
    then show ?thesis
      using sy(1) False by simp
  qed
  show ?thesis
    using sc c s by blast
qed

theorem quadrant_signs_witness:
  "spec_quadrant (unat (2147483649 :: int64)) = 2 \<and>
   (\<exists>s c tr. cordic_sine_cosine generated_tables 2147483649 False = Inr ((s, c), tr) \<and>
      sint c \<le> 0 \<and> sint s \<le> 0) \<and>
   spec_quadrant (unat (1 :: int64)) = 0 \<and>
   (\<exists>s c tr. cordic_sine_cosine generated_tables 1 False = Inr ((s, c), tr) \<and>
      0 \<le> sint c \<and> 0 \<le> sint s) \<and>
   spec_quadrant (unat (0 :: int64)) = 0 \<and>
   (\<exists>s c tr. cordic_sine_cosine generated_tables 0 False = Inr ((s, c), tr) \<and>
      0 \<le> sint c \<and> sint s = - 1)"
proof -
  have q: "spec_quadrant (unat (2147483649 :: int64)) = 2"
    unfolding spec_quadrant_def past_half_turn_fields by simp
  have q1: "spec_quadrant (unat (1 :: int64)) = 0" "spec_quadrant (unat (0 :: int64)) = 0"
    by (simp_all add: spec_quadrant_def spec_quadrant_bit1_def spec_quadrant_bit0_def
        INDEX_BITS_def CORDIC_BITS_def)
  from quadrant_signs [of 2147483649 False]
  have a: "\<exists>s c tr. cordic_sine_cosine generated_tables 2147483649 False = Inr ((s, c), tr) \<and>
      sint c \<le> 0 \<and> sint s \<le> 0"
    unfolding q by simp
  from quadrant_signs [of 1 False]
  have b: "\<exists>s c tr. cordic_sine_cosine generated_tables 1 False = Inr ((s, c), tr) \<and>
      0 \<le> sint c \<and> 0 \<le> sint s"
    unfolding q1 by simp
  from quadrant_signs [of 0 False]
  have c: "\<exists>s c tr. cordic_sine_cosine generated_tables 0 False = Inr ((s, c), tr) \<and>
      0 \<le> sint c \<and> sint s = - 1"
    unfolding q1 by simp
  show ?thesis
    using q q1 a b c by blast
qed

text \<open>
  The claim as stated, with no phase excepted, fails on the generated tables: at the
  phase \<open>3 * 2^30\<close>, the start of quadrant 3, the loop ends with \<open>x = -1\<close> and the
  returned cosine is \<open>-1\<close>.
\<close>

theorem quadrant_signs_counterexample:
  "cordic_sine_cosine generated_tables 3221225472 False = Inr ((- 2147483648, - 1), []) \<and>
   spec_quadrant (unat (3221225472 :: int64)) = 3 \<and> sint (- 1 :: int64) < 0"
  unfolding generated_at_three_quarters
  by (simp add: spec_quadrant_def spec_quadrant_bit1_def spec_quadrant_bit0_def INDEX_BITS_def CORDIC_BITS_def)

text \<open>
  \<^bold>\<open>C4\<close> (the concrete scenario). With the generated tables, the call at phase 0
  returns the cosine \<open>2^31 - 1\<close> and the sine \<open>-1\<close>, and the call at a quarter of the
  full circle returns the cosine 0 and the sine \<open>2^31 - 1\<close>: each is less than 3
  units away from \<^verbatim>\<open>OUTPUT_SCALE\<close> or from 0.
\<close>

theorem concrete_scenario:
  "cordic_sine_cosine generated_tables 0 False = Inr ((- 1, 2147483647), []) \<and>
   \<bar>sint (2147483647 :: int64) - OUTPUT_SCALE\<bar> < 3 \<and> \<bar>sint (- 1 :: int64) - 0\<bar> < 3 \<and>
   cordic_sine_cosine generated_tables (word_of_int (FULL_CIRCLE div 4)) False = Inr ((2147483647, 0), []) \<and>
   \<bar>sint (0 :: int64) - 0\<bar> < 3 \<and> \<bar>sint (2147483647 :: int64) - OUTPUT_SCALE\<bar> < 3"
  unfolding quarter_phase generated_at_zero generated_at_quarter
  by (simp add: OUTPUT_SCALE_def)

text \<open>
  \<^bold>\<open>C5\<close> (decomposition and starting vector). For every 64-bit phase, the quadrant
  bits of the code are bits 31 and 30 of the phase, and the starting state is built
  from the specification's index and residual: with quadrant bit 0 set, \<open>x\<close> is the
  entry at the index, \<open>y\<close> the entry at \<open>TABLE_SIZE - 1 - index\<close> and the residual is
  folded to \<open>2^(CORDIC_BITS + Z_EXTRA_BITS) - residual\<close>; with the bit clear the two
  entries are exchanged and the residual is kept. In both cases \<^verbatim>\<open>TARGET\<close> is then
  subtracted.
\<close>

theorem start_vector_decomposition:
  assumes "tables_sized tb"
  shows "quadrant_bit1 p = word_of_nat (spec_quadrant_bit1 (unat p)) \<and>
     quadrant_bit0 p = word_of_nat (spec_quadrant_bit0 (unat p)) \<and>
     start_vector tb p = Inr
        (if spec_quadrant_bit0 (unat p) = 1
         then (initial tb ! spec_index (unat p),
               initial tb ! (TABLE_SIZE - 1 - spec_index (unat p)),
               2 ^ (CORDIC_BITS + Z_EXTRA_BITS) - word_of_nat (spec_residual (unat p)) - TARGET)
         else (initial tb ! (TABLE_SIZE - 1 - spec_index (unat p)),
               initial tb ! spec_index (unat p),
               word_of_nat (spec_residual (unat p)) - TARGET))"
  using start_vector_spec [OF assms, of p] quadrant_bit1_spec [of p] quadrant_bit0_spec [of p]
  by simp

theorem start_vector_decomposition_witness:
  "tables_sized example_tables \<and>
   spec_quadrant_bit1 (unat (1610612741 :: int64)) = 0 \<and>
   spec_quadrant_bit0 (unat (1610612741 :: int64)) = 1 \<and>
   spec_index (unat (1610612741 :: int64)) = 1024 \<and>
   spec_residual (unat (1610612741 :: int64)) = 20 \<and>
   quadrant_bit1 1610612741 = 0 \<and> quadrant_bit0 1610612741 = 1 \<and>
   start_vector example_tables 1610612741 = Inr (17196646400, 17179869184, 1048556)"
proof -
  have f: "spec_quadrant_bit1 (unat (1610612741 :: int64)) = 0"
    "spec_quadrant_bit0 (unat (1610612741 :: int64)) = 1"
    "spec_index (unat (1610612741 :: int64)) = 1024"
    "spec_residual (unat (1610612741 :: int64)) = 20"
    by (simp_all add: spec_quadrant_bit1_def spec_quadrant_bit0_def spec_index_def spec_residual_def
        INDEX_BITS_def CORDIC_BITS_def Z_EXTRA_BITS_def)
  have t: "TABLE_SIZE - 1 - 1024 = 1023" "1024 < TABLE_SIZE" "1023 < TABLE_SIZE"
    by (simp_all add: TABLE_SIZE_def INDEX_BITS_def)
  have z: "2 ^ (CORDIC_BITS + Z_EXTRA_BITS) - word_of_nat 20 - TARGET = (1048556 :: int64)"
    by (simp add: TARGET_def CORDIC_BITS_def Z_EXTRA_BITS_def)
  from start_vector_decomposition [OF example_tables_sized, of 1610612741]
  have "quadrant_bit1 1610612741 = 0 \<and> quadrant_bit0 1610612741 = 1 \<and>
    start_vector example_tables 1610612741 = Inr (17196646400, 17179869184, 1048556)"
    unfolding f t z by (simp add: example_initial_nth t)
  then show ?thesis
    using example_tables_sized f by blast
qed


text \<open>
  \<^bold>\<open>C6\<close> (the iterations of the rotation). For tables of the declared sizes with
  valid shift amounts and no angle equal to the least 32-bit integer, and every phase:
  the engine finds its starting vector and leaves the loop with the accumulators that
  result from applying the iteration of the specification for \<open>i = 0\<close>, then
  \<open>i = 1\<close>, and so on up to \<^verbatim>\<open>CORDIC_REPS\<close>\<open> - 1\<close>, to that vector. The iteration sets
  \<open>x\<close> to \<open>x - sign(z) * ty\<close> and \<open>y\<close> to \<open>y + sign(z) * tx\<close>, with \<open>tx\<close> and \<open>ty\<close> the
  arithmetic right shifts of \<open>x\<close> and \<open>y\<close> by \<^verbatim>\<open>shifts[i]\<close>, adds \<^verbatim>\<open>angles[i]\<close> to \<open>z\<close>
  when \<open>z < 0\<close> and subtracts it otherwise, and then doubles \<open>z\<close>; every iteration of
  the code, from any accumulators, is this one. In particular, when \<open>z < 0\<close> the new
  \<open>y\<close> is \<open>y + (- tx)\<close>.
\<close>

theorem cordic_step_rotation:
  assumes "tables_sized tb" "shifts_in_range tb" "angles_negatable tb"
  shows "(\<exists>v tr. start_vector tb p = Inr v \<and>
            cordic_rotate tb p shw = Inr (fold (spec_step tb) [0 ..< CORDIC_REPS] v, tr)) \<and>
         (\<forall>i<CORDIC_REPS. \<forall>x y z.
            cordic_step tb i (x, y, z) = Inr (spec_step tb i (x, y, z)) \<and>
            (z <s 0 \<longrightarrow> fst (snd (spec_step tb i (x, y, z))) =
               y + - signed_drop_bit (nat (sint (shifts tb ! i))) x))"
proof -
  obtain v where v: "start_vector tb p = Inr v"
    using start_vector_spec [OF assms(1), of p] by blast
  obtain tr where "cordic_loop tb shw 0 v (if shw then [Header, row v] else []) =
      Inr (fold (spec_step tb) [0 ..< CORDIC_REPS] v, tr)"
    using cordic_loop_spec [OF assms, of CORDIC_REPS 0 shw v] by auto
  then have "cordic_rotate tb p shw = Inr (fold (spec_step tb) [0 ..< CORDIC_REPS] v, tr)"
    by (simp add: cordic_rotate_def v)
  with v have 1: "\<exists>v tr. start_vector tb p = Inr v \<and>
            cordic_rotate tb p shw = Inr (fold (spec_step tb) [0 ..< CORDIC_REPS] v, tr)"
    by blast
  have 2: "fst (snd (spec_step tb i (x, y, z))) =
               y + - signed_drop_bit (nat (sint (shifts tb ! i))) x" if "z <s 0" for i x y z
    using that by (simp add: spec_step_def Let_def spec_sign_def)
  show ?thesis
    using 1 2 cordic_step_spec [OF assms] by blast
qed

theorem cordic_step_rotation_witness:
  "tables_sized generated_tables \<and> shifts_in_range generated_tables \<and>
   angles_negatable generated_tables \<and>
   start_vector generated_tables 0 = Inr (34359730372, 13176784, - 1048576) \<and>
   cordic_rotate generated_tables 0 False = Inr ((34359738366, - 1, 1339894), []) \<and>
   fold (spec_step generated_tables) [0 ..< CORDIC_REPS] (34359730372, 13176784, - 1048576)
     = (34359738366, - 1, 1339894) \<and>
   3 < CORDIC_REPS \<and> (- 5 :: int64) <s 0 \<and>
   cordic_step generated_tables 3 (1000000, 2000000, - 5) = Inr (1000122, 1999939, 2670168) \<and>
   spec_step generated_tables 3 (1000000, 2000000, - 5) = (1000122, 1999939, 2670168)"
proof -
  note t = cordic_step_rotation [OF generated_tables_sized generated_shifts_in_range
      generated_angles_negatable, of 0 False]
  from t obtain v tr where "start_vector generated_tables 0 = Inr v"
    and "cordic_rotate generated_tables 0 False = Inr (fold (spec_step generated_tables) [0 ..< CORDIC_REPS] v, tr)"
    by blast
  then have f: "fold (spec_step generated_tables) [0 ..< CORDIC_REPS] (34359730372, 13176784, - 1048576)
     = (34359738366, - 1, 1339894)"
    unfolding generated_start_first_axis generated_rotate_first_axis by simp
  have i: "3 < CORDIC_REPS" by (simp add: CORDIC_REPS_def)
  have n: "(- 5 :: int64) <s 0"
    by (simp add: word_sless_alt)
  have c: "cordic_step generated_tables 3 (1000000, 2000000, - 5) = Inr (1000122, 1999939, 2670168)"
    unfolding generated_step [OF i] using n by (simp add: INDEX_BITS_def)
  from t i have "cordic_step generated_tables 3 (1000000, 2000000, - 5)
      = Inr (spec_step generated_tables 3 (1000000, 2000000, - 5))"
    by blast
  with c have s: "spec_step generated_tables 3 (1000000, 2000000, - 5) = (1000122, 1999939, 2670168)"
    by simp
  show ?thesis
    using generated_tables_sized generated_shifts_in_range generated_angles_negatable
      generated_start_first_axis generated_rotate_first_axis f i n c s by blast
qed


text \<open>
  \<^bold>\<open>C7\<close> (the note about constant angles). When the generated rotation angles do not
  decrease along the table, \<^verbatim>\<open>setup\<close> prints its note exactly once if all
  \<^verbatim>\<open>CORDIC_REPS\<close> entries of \<^verbatim>\<open>angles\<close> are equal, and does not print it if two
  entries differ. (The code compares the first entry with the last.)
\<close>

theorem note_iff_constant_angles:
  assumes "angles_nondecreasing (fst (setup_tables fa fi))"
  shows "notes_emitted (snd (setup_tables fa fi)) =
     (if \<forall>i < CORDIC_REPS. \<forall>j < CORDIC_REPS.
           angles (fst (setup_tables fa fi)) ! i = angles (fst (setup_tables fa fi)) ! j
      then 1 else 0)"
proof -
  let ?as = "angles (fst (setup_tables fa fi))"
  have nth: "?as ! i = fa i" if "i < CORDIC_REPS" for i
    using that by (simp add: setup_angles del: upt_Suc)
  have len: "length ?as = CORDIC_REPS"
    by (simp add: setup_angles)
  have srt: "sorted (map sint ?as)"
    using assms by (simp add: angles_nondecreasing_def)
  have mono: "sint (fa i) \<le> sint (fa j)" if "i \<le> j" "j < CORDIC_REPS" for i j
  proof -
    have "map sint ?as ! i \<le> map sint ?as ! j"
      using that len by (intro sorted_nth_mono [OF srt]) simp_all
    with that len show ?thesis by (simp add: nth)
  qed
  have "fa 0 = fa (CORDIC_REPS - 1) \<longleftrightarrow> (\<forall>i < CORDIC_REPS. \<forall>j < CORDIC_REPS. fa i = fa j)"
  proof
    assume e: "fa 0 = fa (CORDIC_REPS - 1)"
    have c: "fa i = fa 0" if "i < CORDIC_REPS" for i
    proof -
      have "sint (fa 0) \<le> sint (fa i)" "sint (fa i) \<le> sint (fa (CORDIC_REPS - 1))"
        using that by (auto intro!: mono)
      with e have "sint (fa i) = sint (fa 0)" by simp
      then show ?thesis by (rule signed_word_eqI)
    qed
    show "\<forall>i < CORDIC_REPS. \<forall>j < CORDIC_REPS. fa i = fa j"
    proof (intro allI impI)
      fix i j
      assume "i < CORDIC_REPS" and "j < CORDIC_REPS"
      then have "fa i = fa 0" and "fa j = fa 0" by (blast intro: c)+
      then show "fa i = fa j" by simp
    qed
  next
    assume a: "\<forall>i < CORDIC_REPS. \<forall>j < CORDIC_REPS. fa i = fa j"
    have "0 < CORDIC_REPS" "CORDIC_REPS - 1 < CORDIC_REPS"
      by (simp_all add: CORDIC_REPS_def)
    with a show "fa 0 = fa (CORDIC_REPS - 1)"
      by blast
  qed
  then show ?thesis
    unfolding setup_notes using nth by simp
qed

theorem note_iff_constant_angles_witness:
  "angles_nondecreasing (fst (setup_tables (\<lambda>i. 1335089) (\<lambda>k. 2 ^ 34))) \<and>
   notes_emitted (snd (setup_tables (\<lambda>i. 1335089) (\<lambda>k. 2 ^ 34))) = 1"
proof -
  have s: "angles_nondecreasing (fst (setup_tables (\<lambda>i. 1335089) (\<lambda>k. 2 ^ 34)))"
    by (simp add: angles_nondecreasing_def setup_angles sorted_map del: upt_Suc)
  from note_iff_constant_angles [OF s] show ?thesis
    using s by (simp add: setup_angles del: upt_Suc)
qed

text \<open>
  \<^bold>\<open>C8\<close> (the phase counts modulo \<open>2^INPUT_BITS\<close>). For every non-negative 64-bit
  phase \<open>p\<close>, the call at \<open>p mod 2^INPUT_BITS\<close> returns what the call at \<open>p\<close>
  returns, trace included.
\<close>

theorem phase_modulo:
  assumes "0 \<le> sint p"
  shows "cordic_sine_cosine tb (word_of_int (sint p mod 2 ^ INPUT_BITS)) shw = cordic_sine_cosine tb p shw"
proof -
  have b: "INPUT_BITS = 32"
    by (simp add: INPUT_BITS_def INDEX_BITS_def CORDIC_BITS_def)
  show ?thesis
    unfolding b word_of_int_sint_mod cordic_take_bit ..
qed

theorem phase_modulo_witness:
  "0 \<le> sint (4294967301 :: int64) \<and>
   cordic_sine_cosine example_tables (word_of_int (sint (4294967301 :: int64) mod 2 ^ INPUT_BITS)) True =
   cordic_sine_cosine example_tables 4294967301 True"
proof -
  have n: "0 \<le> sint (4294967301 :: int64)" by simp
  from phase_modulo [OF n] show ?thesis using n by blast
qed

text \<open>
  \<^bold>\<open>C9\<close> (determinism, and the trace flag changes no result). The model is a function
  of the tables, the phase and the flag, so equal arguments give equal results; and
  for all tables and every phase, the call with the trace switched on returns the same
  pair \<open>(s, c)\<close>, or fails in the same way, as the call with the trace switched off.
\<close>

theorem trace_flag_inert:
  "map_sum id fst (cordic_sine_cosine tb p True) = map_sum id fst (cordic_sine_cosine tb p False)"
proof -
  have "map_sum id fst (cordic_rotate tb p True) = map_sum id fst (cordic_rotate tb p False)"
    by (cases "start_vector tb p") (simp_all add: cordic_rotate_def loop_show_inert [of _ True _ _ _ False "[]"])
  then show ?thesis
    by (cases "cordic_rotate tb p True"; cases "cordic_rotate tb p False")
      (auto simp add: cordic_sine_cosine_def Let_def split: prod.splits)
qed

text \<open>
  \<^bold>\<open>C10\<close> (no read outside a table). For tables of the declared sizes and every
  64-bit phase, the index and the mirrored index \<open>TABLE_SIZE - 1 - index\<close> lie inside
  \<^verbatim>\<open>initial\<close>, the loop counter stays inside \<^verbatim>\<open>shifts\<close> and \<^verbatim>\<open>angles\<close>, and the call
  never ends with an out-of-bounds read.
\<close>

theorem table_reads_in_bounds:
  assumes "tables_sized tb"
  shows "0 \<le> index p \<and> index p < int (length (initial tb)) \<and>
     0 \<le> int TABLE_SIZE - 1 - index p \<and> int TABLE_SIZE - 1 - index p < int (length (initial tb)) \<and>
     CORDIC_REPS \<le> length (shifts tb) \<and> CORDIC_REPS \<le> length (angles tb) \<and>
     cordic_sine_cosine tb p shw \<noteq> Inl OutOfBounds"
proof -
  have "cordic_sine_cosine tb p shw \<noteq> Inl OutOfBounds"
    using cordic_rotate_in_bounds [OF assms, of p shw]
    by (auto simp add: cordic_sine_cosine_def Let_def split: sum.splits prod.splits)
  then show ?thesis
    using assms index_range [of p] by (simp add: tables_sized_def)
qed

theorem table_reads_in_bounds_witness:
  "tables_sized example_tables \<and>
   0 \<le> index (- 1) \<and> index (- 1) < int (length (initial example_tables)) \<and>
   0 \<le> int TABLE_SIZE - 1 - index (- 1) \<and>
   int TABLE_SIZE - 1 - index (- 1) < int (length (initial example_tables)) \<and>
   CORDIC_REPS \<le> length (shifts example_tables) \<and> CORDIC_REPS \<le> length (angles example_tables) \<and>
   cordic_sine_cosine example_tables (- 1) True \<noteq> Inl OutOfBounds"
  using example_tables_sized table_reads_in_bounds [OF example_tables_sized, of "- 1" True]
  by blast

end
